theory Spec2Isabelle
  imports Main "HOL-Library.Word"
begin

unbundle bit_operations_syntax

section \<open>Data model of \<^verbatim>\<open>FixedHash<N>\<close>\<close>

text \<open>
  \<^verbatim>\<open>FixedHash<N>\<close> holds one member, \<^verbatim>\<open>std::array<byte, N> m_data\<close>. A value is modelled as
  the list of its bytes; the template parameter \<open>N\<close> is the length of that list. Template
  parameters and loop counters of C++ type \<^verbatim>\<open>unsigned\<close> are 32 bits wide. The class computes
  \<open>N * 8\<close> in \<^verbatim>\<open>unsigned\<close>: as the bit count of \<^verbatim>\<open>bloomPart\<close>, which does not compile when the
  product wraps, and as the counter of \<^verbatim>\<open>firstBitSet\<close>, which wraps at run time. The sizes of
  byte sequences handed in at run time are \<^verbatim>\<open>size_t\<close> values, modelled as lengths of lists without
  a bound; where the code converts one to \<^verbatim>\<open>unsigned\<close> the reduction modulo \<open>2 ^ 32\<close> is written
  out.
\<close>

type_synonym byte = "8 word"

text \<open>\<^verbatim>\<open>enum ConstructFromHashType { AlignLeft, AlignRight, FailIfDifferent }\<close>\<close>

datatype ConstructFromHashType = AlignLeft | AlignRight | FailIfDifferent

text \<open>Byte order of the machine running the code; it decides what a \<^verbatim>\<open>uint64_t\<close> load
  through a cast pointer reads.\<close>

datatype endian = LittleEndian | BigEndian

text \<open>\<^verbatim>\<open>m_data.fill(0)\<close> on an array of \<open>N\<close> bytes, and the default constructor
  \<^verbatim>\<open>FixedHash() { m_data.fill(0); }\<close>.\<close>

definition fill0 :: "nat \<Rightarrow> byte list" where
  "fill0 N = replicate N 0"

definition FixedHash_empty :: "nat \<Rightarrow> byte list" where
  "FixedHash_empty N = fill0 N"

text \<open>\<^verbatim>\<open>memcpy(dst, src, n)\<close>: the first \<open>n\<close> bytes of \<open>dst\<close> are replaced by the first \<open>n\<close>
  bytes of \<open>src\<close>.\<close>

definition memcpy :: "byte list \<Rightarrow> byte list \<Rightarrow> nat \<Rightarrow> byte list" where
  "memcpy dst src n = take n src @ drop n dst"

section \<open>Constructors\<close>

text \<open>
  The copy loop shared by the three constructors that take an alignment:
  \<^verbatim>\<open>for (unsigned i = 0; i < c; ++i)
    m_data[_t == AlignRight ? N - 1 - i : i] = _h[_t == AlignRight ? M - 1 - i : i];\<close>
  with \<open>M\<close> the length of the source.
\<close>

definition align_copy :: "ConstructFromHashType \<Rightarrow> nat \<Rightarrow> byte list \<Rightarrow> byte list \<Rightarrow> byte list" where
  "align_copy t c src m_data =
     fold (\<lambda>i d. d[(if t = AlignRight then length m_data - 1 - i else i) :=
                     src ! (if t = AlignRight then length src - 1 - i else i)])
          [0..<c] m_data"

text \<open>\<^verbatim>\<open>template <unsigned M> explicit FixedHash(FixedHash<M> const& _h, ConstructFromHashType _t)\<close>\<close>

definition FixedHash_from_hash :: "nat \<Rightarrow> byte list \<Rightarrow> ConstructFromHashType \<Rightarrow> byte list" where
  "FixedHash_from_hash N h t =
     (let m_data = fill0 N; c = min (length h) N in align_copy t c h m_data)"

text \<open>
  \<^verbatim>\<open>explicit FixedHash(bytes const& _b, ConstructFromHashType _t)\<close>. When the sizes agree the
  storage is not cleared before the \<^verbatim>\<open>memcpy\<close>; its indeterminate contents are the argument
  \<open>m_data\<close>, whose length is \<open>N\<close>. The count \<open>c\<close> is \<^verbatim>\<open>std::min<unsigned>(_b.size(), N)\<close>: the
  size is converted to \<^verbatim>\<open>unsigned\<close> before the comparison.
\<close>

definition FixedHash_from_bytes :: "byte list \<Rightarrow> byte list \<Rightarrow> ConstructFromHashType \<Rightarrow> byte list" where
  "FixedHash_from_bytes m_data b t =
     (let N = length m_data in
      if length b = N then memcpy m_data b (min (length b mod 2 ^ 32) N)
      else let m_data = fill0 N in
        if t \<noteq> FailIfDifferent
        then let c = min (length b mod 2 ^ 32) N in align_copy t c b m_data
        else m_data)"

text \<open>
  \<^verbatim>\<open>explicit FixedHash(bytesConstRef _b, ConstructFromHashType _t)\<close>: the same body with
  \<^verbatim>\<open>std::min<size_t>\<close>, so the size is compared as it is.
\<close>

definition FixedHash_from_ref :: "byte list \<Rightarrow> byte list \<Rightarrow> ConstructFromHashType \<Rightarrow> byte list" where
  "FixedHash_from_ref m_data b t =
     (let N = length m_data in
      if length b = N then memcpy m_data b (min (length b) N)
      else let m_data = fill0 N in
        if t \<noteq> FailIfDifferent
        then let c = min (length b) N in align_copy t c b m_data
        else m_data)"

text \<open>\<^verbatim>\<open>inline h160 right160(h256 const& _t)\<close>: a cleared 20-byte value, then
  \<^verbatim>\<open>memcpy(ret.data(), _t.data() + 12, 20)\<close>.\<close>

definition right160 :: "byte list \<Rightarrow> byte list" where
  "right160 t = (let ret = FixedHash_empty 20 in memcpy ret (drop 12 t) 20)"

section \<open>Big-endian conversion\<close>

text \<open>
  \<^verbatim>\<open>template <class T, class _In> inline T fromBigEndian(_In const& _bytes)\<close>:
  \<^verbatim>\<open>ret = (T)((ret << 8) | (byte)i)\<close> for every byte in order. The result type \<open>T\<close> is
  \<^verbatim>\<open>bigint\<close> (here \<open>nat\<close>, no width) or an unsigned type of fixed width (here \<open>'a word\<close>).
\<close>

definition fromBigEndian :: "byte list \<Rightarrow> 'a::semiring_bit_operations" where
  "fromBigEndian bytes = fold (\<lambda>i ret. push_bit 8 ret OR unsigned i) bytes 0"

text \<open>
  \<^verbatim>\<open>template <class T, class Out> inline void toBigEndian(T _val, Out& o_out)\<close>:
  \<^verbatim>\<open>for (auto i = o_out.size(); i != 0; _val >>= 8, i--)
    { T v = _val & (T)0xff; o_out[i - 1] = (uint8_t)v; }\<close>
  The loop counter is the first argument of the loop function; the size of \<open>o_out\<close> does not
  change.
\<close>

fun toBigEndian_loop :: "nat \<Rightarrow> 'a::len word \<Rightarrow> byte list \<Rightarrow> byte list" where
  "toBigEndian_loop 0 val out = out"
| "toBigEndian_loop (Suc i) val out =
     (let v = val AND 0xff in toBigEndian_loop i (drop_bit 8 val) (out[i := ucast v]))"

definition toBigEndian :: "'a::len word \<Rightarrow> byte list \<Rightarrow> byte list" where
  "toBigEndian val o_out = toBigEndian_loop (length o_out) val o_out"

text \<open>\<^verbatim>\<open>operator Arith() const { return fromBigEndian<Arith>(m_data); }\<close>, where \<open>Arith\<close> is
  the unsigned unchecked type of \<open>N * 8\<close> bits.\<close>

definition to_Arith :: "byte list \<Rightarrow> 'a::len word" where
  "to_Arith m_data = fromBigEndian m_data"

text \<open>\<^verbatim>\<open>template <unsigned N> struct StaticLog2 { enum { result = 1 + StaticLog2<N/2>::result }; };\<close>
  with the specialisation \<^verbatim>\<open>StaticLog2<1>\<close> of result 0. \<^verbatim>\<open>StaticLog2<0>\<close> refers to itself and
  does not compile: \<open>None\<close>.\<close>

fun StaticLog2 :: "nat \<Rightarrow> nat option" where
  "StaticLog2 n =
     (if n = 0 then None
      else if n = 1 then Some 0
      else map_option (\<lambda>r. 1 + r) (StaticLog2 (n div 2)))"

declare StaticLog2.simps [simp del]

section \<open>Comparison operators\<close>

text \<open>The generic \<^verbatim>\<open>operator==\<close>: \<^verbatim>\<open>m_data == _c.m_data\<close>, the comparison of two
  \<^verbatim>\<open>std::array\<close>s of the same size, element by element.\<close>

definition eq_generic :: "byte list \<Rightarrow> byte list \<Rightarrow> bool" where
  "eq_generic m_data c = (m_data = c)"

text \<open>
  The specialisation \<^verbatim>\<open>FixedHash<32>::operator==\<close> reads both arrays as four \<^verbatim>\<open>uint64_t\<close>:
  \<^verbatim>\<open>hash1[k]\<close> is made of the bytes \<open>8k .. 8k+7\<close>, the first of them the least significant
  on a little-endian machine and the most significant on a big-endian one.
\<close>

definition load_u64 :: "endian \<Rightarrow> byte list \<Rightarrow> nat \<Rightarrow> 64 word" where
  "load_u64 en d k =
     (let bs = take 8 (drop (8 * k) d)
      in case en of LittleEndian \<Rightarrow> fromBigEndian (rev bs) | BigEndian \<Rightarrow> fromBigEndian bs)"

definition eq_h256 :: "endian \<Rightarrow> byte list \<Rightarrow> byte list \<Rightarrow> bool" where
  "eq_h256 en m_data other =
     (load_u64 en m_data 0 = load_u64 en other 0 \<and> load_u64 en m_data 1 = load_u64 en other 1 \<and>
      load_u64 en m_data 2 = load_u64 en other 2 \<and> load_u64 en m_data 3 = load_u64 en other 3)"

text \<open>\<^verbatim>\<open>operator==\<close> as the compiler selects it: the specialisation for \<open>N = 32\<close>, the generic
  body otherwise.\<close>

definition op_eq :: "endian \<Rightarrow> byte list \<Rightarrow> byte list \<Rightarrow> bool" where
  "op_eq en m_data c = (if length m_data = 32 then eq_h256 en m_data c else eq_generic m_data c)"

text \<open>\<^verbatim>\<open>bool operator<(FixedHash const& _c) const
  { for (unsigned i = 0; i < N; ++i)
      if (m_data[i] < _c.m_data[i]) return true;
      else if (m_data[i] > _c.m_data[i]) return false;
    return false; }\<close>\<close>

function lt_loop :: "nat \<Rightarrow> nat \<Rightarrow> byte list \<Rightarrow> byte list \<Rightarrow> bool" where
  "lt_loop i N m_data c =
     (if i < N then
        (if m_data ! i < c ! i then True
         else if m_data ! i > c ! i then False
         else lt_loop (i + 1) N m_data c)
      else False)"
  by pat_completeness auto
termination
  by (relation "measure (\<lambda>(i, N, m_data, c). N - i)") auto

declare lt_loop.simps [simp del]

definition op_lt :: "byte list \<Rightarrow> byte list \<Rightarrow> bool" where
  "op_lt m_data c = lt_loop 0 (length m_data) m_data c"

text \<open>\<^verbatim>\<open>operator>=\<close> is \<^verbatim>\<open>!operator<(_c)\<close>, \<^verbatim>\<open>operator<=\<close> is \<^verbatim>\<open>operator==(_c) || operator<(_c)\<close>,
  \<^verbatim>\<open>operator>\<close> is \<^verbatim>\<open>!operator<=(_c)\<close>.\<close>

definition op_ge :: "byte list \<Rightarrow> byte list \<Rightarrow> bool" where
  "op_ge m_data c = (\<not> op_lt m_data c)"

definition op_le :: "endian \<Rightarrow> byte list \<Rightarrow> byte list \<Rightarrow> bool" where
  "op_le en m_data c = (op_eq en m_data c \<or> op_lt m_data c)"

definition op_gt :: "endian \<Rightarrow> byte list \<Rightarrow> byte list \<Rightarrow> bool" where
  "op_gt en m_data c = (\<not> op_le en m_data c)"

section \<open>Bitwise operators, increment, containment\<close>

text \<open>\<^verbatim>\<open>operator|=\<close>: \<^verbatim>\<open>for (unsigned i = 0; i < N; ++i) m_data[i] |= _c.m_data[i];\<close>,
  and \<^verbatim>\<open>operator&=\<close> alike. \<^verbatim>\<open>operator&\<close> is \<^verbatim>\<open>FixedHash(*this) &= _c\<close>.\<close>

definition op_or_assign :: "byte list \<Rightarrow> byte list \<Rightarrow> byte list" where
  "op_or_assign m_data c = fold (\<lambda>i d. d[i := d ! i OR c ! i]) [0..<length m_data] m_data"

definition op_and_assign :: "byte list \<Rightarrow> byte list \<Rightarrow> byte list" where
  "op_and_assign m_data c = fold (\<lambda>i d. d[i := d ! i AND c ! i]) [0..<length m_data] m_data"

definition op_and :: "byte list \<Rightarrow> byte list \<Rightarrow> byte list" where
  "op_and m_data c = op_and_assign m_data c"

text \<open>\<^verbatim>\<open>FixedHash& operator++() { for (unsigned i = size; i > 0 && !++m_data[--i]; ) {} return *this; }\<close>
  The loop counter is the first argument.\<close>

fun inc_loop :: "nat \<Rightarrow> byte list \<Rightarrow> byte list" where
  "inc_loop 0 m_data = m_data"
| "inc_loop (Suc i) m_data =
     (let m_data = m_data[i := m_data ! i + 1]
      in if m_data ! i = 0 then inc_loop i m_data else m_data)"

definition op_inc :: "byte list \<Rightarrow> byte list" where
  "op_inc m_data = inc_loop (length m_data) m_data"

text \<open>\<^verbatim>\<open>bool contains(FixedHash const& _c) const { return (*this & _c) == _c; }\<close>\<close>

definition contains :: "endian \<Rightarrow> byte list \<Rightarrow> byte list \<Rightarrow> bool" where
  "contains en m_data c = op_eq en (op_and m_data c) c"

section \<open>Bloom filter parts\<close>

text \<open>
  The inner loop of \<^verbatim>\<open>bloomPart\<close>, reading one index through the pointer \<open>p\<close> (an offset
  into \<open>m_data\<close>):
  \<^verbatim>\<open>unsigned index = 0;
  for (unsigned j = 0; j < c_bloomBytes; ++j, ++p) index = (index << 8) | *p;\<close>
\<close>

definition bloom_read :: "nat \<Rightarrow> byte list \<Rightarrow> nat \<Rightarrow> 32 word \<times> nat" where
  "bloom_read c_bloomBytes m_data p =
     fold (\<lambda>j (index, p). (push_bit 8 index OR ucast (m_data ! p), p + 1)) [0..<c_bloomBytes] (0, p)"

text \<open>
  One round of the outer loop, on the pair of \<open>ret\<close> and \<open>p\<close>:
  \<^verbatim>\<open>index &= c_mask; ret[M - 1 - index / 8] |= (1 << (index % 8));\<close>
  The shifted \<open>1\<close> is an \<^verbatim>\<open>int\<close>; the byte keeps its low 8 bits.
\<close>

definition bloom_pick :: "nat \<Rightarrow> 32 word \<Rightarrow> nat \<Rightarrow> byte list \<Rightarrow> byte list \<times> nat \<Rightarrow> byte list \<times> nat" where
  "bloom_pick M c_mask c_bloomBytes m_data = (\<lambda>(ret, p).
     let (index, p) = bloom_read c_bloomBytes m_data p;
         index = index AND c_mask;
         k = M - 1 - unat (index div 8)
     in (ret[k := ret ! k OR ucast (push_bit (unat (index mod 8)) (1 :: 32 word))], p))"

text \<open>
  \<^verbatim>\<open>template <unsigned P, unsigned M> inline FixedHash<M> bloomPart() const\<close>. The two
  \<^verbatim>\<open>static_assert\<close>s and \<^verbatim>\<open>StaticLog2\<close> decide whether the instantiation compiles; where it
  does not, the result is \<open>None\<close>. The products \<open>M * 8\<close> and \<open>P * c_bloomBytes\<close> are computed in
  \<^verbatim>\<open>unsigned\<close>. When the range check passes on a product that did not wrap, every read through
  \<open>p\<close> is inside \<open>m_data\<close> and every write is inside \<open>ret\<close>.
\<close>

definition bloomPart :: "nat \<Rightarrow> nat \<Rightarrow> byte list \<Rightarrow> byte list option" where
  "bloomPart P M m_data =
     (let c_bloomBits = (M * 8) mod 2 ^ 32;
          c_mask = (word_of_nat c_bloomBits - 1 :: 32 word)
      in case StaticLog2 c_bloomBits of
           None \<Rightarrow> None
         | Some l \<Rightarrow>
             let c_bloomBytes = (l + 7) div 8 in
             if M AND (M - 1) \<noteq> 0 \<or> \<not> (P * c_bloomBytes) mod 2 ^ 32 \<le> length m_data then None
             else Some (fst (fold (\<lambda>i. bloom_pick M c_mask c_bloomBytes m_data) [0..<P]
                                  (FixedHash_empty M, 0))))"

text \<open>\<^verbatim>\<open>shiftBloom<P, M>(_h)\<close> is \<^verbatim>\<open>*this |= _h.bloomPart<P, N>()\<close> and \<^verbatim>\<open>containsBloom<P, M>(_h)\<close>
  is \<^verbatim>\<open>contains(_h.bloomPart<P, N>())\<close>, with \<open>N\<close> the size of the filter \<^verbatim>\<open>*this\<close>.\<close>

definition shiftBloom :: "nat \<Rightarrow> byte list \<Rightarrow> byte list \<Rightarrow> byte list option" where
  "shiftBloom P m_data h = map_option (op_or_assign m_data) (bloomPart P (length m_data) h)"

definition containsBloom :: "endian \<Rightarrow> nat \<Rightarrow> byte list \<Rightarrow> byte list \<Rightarrow> bool option" where
  "containsBloom en P m_data h = map_option (contains en m_data) (bloomPart P (length m_data) h)"

section \<open>First set bit\<close>

text \<open>
  The inner loop of \<^verbatim>\<open>firstBitSet\<close> has no bound of its own:
  \<^verbatim>\<open>for (;; ++ret, d <<= 1) { if (d & 0x80) return ret; }\<close>
  with \<open>d\<close> a byte and \<open>ret\<close> an \<^verbatim>\<open>unsigned\<close>. Not returning is \<open>None\<close>.
\<close>

partial_function (option) firstBitSet_scan :: "32 word \<Rightarrow> byte \<Rightarrow> 32 word option" where
  "firstBitSet_scan ret d =
     (if d AND 0x80 \<noteq> 0 then Some ret else firstBitSet_scan (ret + 1) (push_bit 1 d))"

declare firstBitSet_scan.simps [code]

text \<open>\<^verbatim>\<open>for (auto d: m_data) if (d) { ... } else ret += 8; return ret;\<close>\<close>

fun firstBitSet_loop :: "32 word \<Rightarrow> byte list \<Rightarrow> 32 word option" where
  "firstBitSet_loop ret [] = Some ret"
| "firstBitSet_loop ret (d # ds) =
     (if d \<noteq> 0 then firstBitSet_scan ret d else firstBitSet_loop (ret + 8) ds)"

definition firstBitSet :: "byte list \<Rightarrow> 32 word option" where
  "firstBitSet m_data = firstBitSet_loop 0 m_data"

section \<open>Vocabulary of the properties\<close>

text \<open>The value of a byte sequence read as one big-endian unsigned number of any size.\<close>

definition be_nat :: "byte list \<Rightarrow> nat" where
  "be_nat v = fromBigEndian v"

text \<open>Bit \<open>k\<close> of a value, counted from the most significant bit of byte 0.\<close>

definition msb_bit :: "byte list \<Rightarrow> nat \<Rightarrow> bool" where
  "msb_bit v k = bit (v ! (k div 8)) (7 - k mod 8)"

text \<open>The number of bits set in a byte and in a value.\<close>

definition popcount_byte :: "byte \<Rightarrow> nat" where
  "popcount_byte b = length (filter (bit b) [0..<8])"

definition popcount :: "byte list \<Rightarrow> nat" where
  "popcount v = sum_list (map popcount_byte v)"

text \<open>
  The index of pick \<open>i\<close> as the specification words it: the bytes
  \<open>i * bytesPerPick ..< (i + 1) * bytesPerPick\<close> of the source as a big-endian number, reduced
  to \<open>[0, bits)\<close>.
\<close>

definition pick_index :: "nat \<Rightarrow> nat \<Rightarrow> byte list \<Rightarrow> nat \<Rightarrow> nat" where
  "pick_index bits bytesPerPick v i =
     be_nat (take bytesPerPick (drop (i * bytesPerPick) v)) mod bits"

text \<open>Setting bit \<open>index\<close> of an \<open>M\<close>-byte result by the convention of the specification: byte
  \<open>M - 1 - index / 8\<close>, bit \<open>index % 8\<close> of that byte.\<close>

definition set_pick :: "nat \<Rightarrow> nat \<Rightarrow> byte list \<Rightarrow> byte list" where
  "set_pick M index ret =
     ret[M - 1 - index div 8 := ret ! (M - 1 - index div 8) OR 2 ^ (index mod 8)]"

text \<open>The bloom part as the specification computes it: start from \<open>M\<close> zero bytes and set the
  bit of each of the \<open>P\<close> picks in turn.\<close>

definition bloomPart_spec :: "nat \<Rightarrow> nat \<Rightarrow> nat \<Rightarrow> byte list \<Rightarrow> byte list" where
  "bloomPart_spec P M bytesPerPick v =
     fold (\<lambda>i. set_pick M (pick_index (M * 8) bytesPerPick v i)) [0..<P] (replicate M 0)"

section \<open>Constructors: alignment, truncation, padding\<close>

text \<open>The copy loop, run \<open>c\<close> times, has copied the first \<open>c\<close> bytes (left) or the last \<open>c\<close>
  bytes (right) and left the rest of the destination alone.\<close>

lemma align_copy_left:
  assumes "t \<noteq> AlignRight" "c \<le> length src" "c \<le> length m"
  shows "align_copy t c src m = take c src @ drop c m"
  using assms
proof (induction c)
  case 0
  then show ?case by (simp add: align_copy_def)
next
  case (Suc c)
  then have IH: "align_copy t c src m = take c src @ drop c m" by simp
  have "align_copy t (Suc c) src m = (align_copy t c src m)[c := src ! c]"
    using Suc.prems by (simp add: align_copy_def)
  also have "\<dots> = take (Suc c) src @ drop (Suc c) m"
    unfolding IH using Suc.prems
    by (intro nth_equalityI) (auto simp: nth_append nth_list_update less_Suc_eq min_def)
  finally show ?case .
qed

lemma align_copy_right:
  assumes "c \<le> length src" "c \<le> length m"
  shows "align_copy AlignRight c src m = take (length m - c) m @ drop (length src - c) src"
  using assms
proof (induction c)
  case 0
  then show ?case by (simp add: align_copy_def)
next
  case (Suc c)
  then have IH: "align_copy AlignRight c src m = take (length m - c) m @ drop (length src - c) src" by simp
  have "align_copy AlignRight (Suc c) src m =
          (align_copy AlignRight c src m)[length m - 1 - c := src ! (length src - 1 - c)]"
    using Suc.prems by (simp add: align_copy_def)
  also have "\<dots> = take (length m - Suc c) m @ drop (length src - Suc c) src"
    unfolding IH using Suc.prems
    by (intro nth_equalityI) (auto simp: nth_append nth_list_update less_Suc_eq min_def Suc_diff_Suc)
  finally show ?case .
qed

lemma FixedHash_from_hash_left:
  "t \<noteq> AlignRight \<Longrightarrow>
   FixedHash_from_hash N h t = take (min (length h) N) h @ replicate (N - min (length h) N) 0"
  by (simp add: FixedHash_from_hash_def Let_def fill0_def align_copy_left)

lemma FixedHash_from_hash_right:
  "FixedHash_from_hash N h AlignRight =
     replicate (N - min (length h) N) 0 @ drop (length h - min (length h) N) h"
  by (simp add: FixedHash_from_hash_def Let_def fill0_def align_copy_right)

lemma right160_drop: "length h = 32 \<Longrightarrow> right160 h = drop 12 h"
  by (simp add: right160_def memcpy_def FixedHash_empty_def fill0_def)

text \<open>
  Claim C5. For every 32-byte value \<open>h\<close>, \<open>right160 h\<close> equals the 20-byte value built by the
  cross-size constructor with \<open>AlignRight\<close>; both are the last 20 bytes of \<open>h\<close> (offsets 12 to 31),
  and replacing the first 12 bytes of \<open>h\<close> by any others does not change the result.
\<close>

theorem right160_is_AlignRight_constructor:
  assumes "length h = 32"
  shows "right160 h = FixedHash_from_hash 20 h AlignRight
       \<and> length (right160 h) = 20
       \<and> (\<forall>i<20. right160 h ! i = h ! (12 + i))
       \<and> (\<forall>p. length p = 12 \<longrightarrow> right160 (p @ drop 12 h) = right160 h)"
proof -
  have d: "right160 h = drop 12 h" using assms by (rule right160_drop)
  have c: "FixedHash_from_hash 20 h AlignRight = drop 12 h"
    using assms by (simp add: FixedHash_from_hash_right)
  have p: "right160 (p @ drop 12 h) = right160 h" if "length p = 12" for p
  proof -
    have "length (p @ drop 12 h) = 32" using that assms by simp
    then have "right160 (p @ drop 12 h) = drop 12 (p @ drop 12 h)" by (rule right160_drop)
    then show ?thesis using that d by simp
  qed
  show ?thesis using d c p assms by simp
qed

theorem right160_is_AlignRight_constructor_witness:
  "right160 (replicate 12 0xEE @ map of_nat [1..<21]) = map of_nat [1..<21]
   \<and> FixedHash_from_hash 20 (replicate 12 0xEE @ map of_nat [1..<21]) AlignRight = map of_nat [1..<21]
   \<and> right160 (replicate 12 0x11 @ map of_nat [1..<21]) = right160 (replicate 12 0xEE @ map of_nat [1..<21])"
proof -
  let ?h = "replicate 12 (0xEE::byte) @ map of_nat [1..<21]"
  have l: "length ?h = 32" by simp
  have r: "right160 ?h = drop 12 ?h" by (simp add: right160_def memcpy_def FixedHash_empty_def fill0_def)
  show ?thesis
    using right160_is_AlignRight_constructor [OF l] r
    by (auto dest: spec [where x = "replicate 12 0x11"])
qed

text \<open>
  The constructor from a byte view does what the specification says on every input: a verbatim
  copy when the sizes agree, the zero value under \<open>FailIfDifferent\<close>, and a copy of
  \<open>min (length b) N\<close> bytes from the starts or from the ends otherwise. The constructor from
  \<^verbatim>\<open>bytes\<close> agrees with it as long as the size fits \<^verbatim>\<open>unsigned\<close>.
\<close>

lemma FixedHash_from_ref_spec:
  "FixedHash_from_ref m b t =
     (let N = length m; c = min (length b) N in
      if length b = N then b
      else if t = FailIfDifferent then replicate N 0
      else if t = AlignLeft then take c b @ replicate (N - c) 0
      else replicate (N - c) 0 @ drop (length b - c) b)"
  by (cases t) (simp_all add: FixedHash_from_ref_def Let_def memcpy_def fill0_def align_copy_left align_copy_right)

lemma FixedHash_from_bytes_small:
  "length b < 2 ^ 32 \<Longrightarrow> FixedHash_from_bytes m b t = FixedHash_from_ref m b t"
proof -
  assume "length b < 2 ^ 32"
  then have "length b mod 2 ^ 32 = length b" by (rule mod_less)
  then show ?thesis by (simp only: FixedHash_from_bytes_def FixedHash_from_ref_def)
qed

text \<open>
  Claim C4. Constructing from a byte sequence whose length differs from \<open>N\<close> under \<open>AlignLeft\<close>
  should copy \<open>min (length b) N\<close> bytes. On a sequence of \<open>2 ^ 32 + 1\<close> bytes and \<open>N = 32\<close> the
  constructor from \<^verbatim>\<open>bytes\<close> computes the count in \<^verbatim>\<open>unsigned\<close>, gets 1 and copies a single byte,
  while the constructor from a byte view, whose count is a \<^verbatim>\<open>size_t\<close>, copies 32.
\<close>

theorem FixedHash_from_bytes_truncates_size:
  "FixedHash_from_bytes (replicate 32 0xCC) (replicate 4294967297 0xAB) AlignLeft = 0xAB # replicate 31 0
   \<and> FixedHash_from_ref (replicate 32 0xCC) (replicate 4294967297 0xAB) AlignLeft = replicate 32 0xAB"
  by (simp add: FixedHash_from_bytes_def FixedHash_from_ref_def Let_def fill0_def align_copy_left)

section \<open>Big-endian conversion round trip\<close>

lemma fromBigEndian_Nil: "fromBigEndian [] = 0"
  by (simp add: fromBigEndian_def)

lemma fromBigEndian_snoc:
  "fromBigEndian (xs @ [b]) = push_bit 8 (fromBigEndian xs) OR unsigned b"
  by (simp add: fromBigEndian_def)

text \<open>Bit \<open>n\<close> of the decoded word is bit \<open>n mod 8\<close> of the byte \<open>n div 8\<close> places from the end,
  as far as the word is wide.\<close>

lemma bit_fromBigEndian:
  "bit (fromBigEndian v :: 'a::len word) n \<longleftrightarrow>
     n < LENGTH('a) \<and> n < 8 * length v \<and> bit (v ! (length v - 1 - n div 8)) (n mod 8)"
proof (induction v arbitrary: n rule: rev_induct)
  case Nil
  then show ?case by (simp add: fromBigEndian_Nil)
next
  case (snoc b xs)
  show ?case
  proof (cases "n < 8")
    case True
    then have "n div 8 = 0" "n mod 8 = n" by simp_all
    with True show ?thesis
      by (auto simp: fromBigEndian_snoc bit_or_iff bit_push_bit_iff bit_unsigned_iff dest: bit_imp_le_length)
  next
    case False
    then have n: "n = 8 + (n - 8)" by simp
    have d: "(n - 8) div 8 = n div 8 - 1" "(n - 8) mod 8 = n mod 8"
    proof -
      obtain j where j: "n = j + 8" using False by (metis le_add_diff_inverse2 not_less)
      show "(n - 8) div 8 = n div 8 - 1" "(n - 8) mod 8 = n mod 8" unfolding j by simp_all
    qed
    have "n div 8 \<ge> 1" using False by simp
    have nb: "\<not> bit b n" using False by (auto dest: bit_imp_le_length)
    have "bit (fromBigEndian (xs @ [b]) :: 'a word) n \<longleftrightarrow>
            n < LENGTH('a) \<and> bit (fromBigEndian xs :: 'a word) (n - 8)"
      using False nb by (auto simp: fromBigEndian_snoc bit_or_iff bit_push_bit_iff bit_unsigned_iff)
    also have "\<dots> \<longleftrightarrow> n < LENGTH('a) \<and> n - 8 < 8 * length xs
                    \<and> bit (xs ! (length xs - 1 - (n - 8) div 8)) ((n - 8) mod 8)"
      by (auto simp: snoc.IH)
    also have "\<dots> \<longleftrightarrow> n < LENGTH('a) \<and> n < 8 * length (xs @ [b])
                    \<and> bit ((xs @ [b]) ! (length (xs @ [b]) - 1 - n div 8)) (n mod 8)"
    proof -
      have "n - 8 < 8 * length xs \<longleftrightarrow> n < 8 * length (xs @ [b])" using False by auto
      moreover have "(xs @ [b]) ! (length (xs @ [b]) - 1 - n div 8) = xs ! (length xs - 1 - (n - 8) div 8)"
        if "n < 8 * length (xs @ [b])"
      proof -
        have "n div 8 < Suc (length xs)" using that by simp
        with \<open>n div 8 \<ge> 1\<close> have "length xs - n div 8 < length xs"
          "length xs - 1 - (n div 8 - 1) = length xs - n div 8" by arith+
        then show ?thesis using d by (simp add: nth_append)
      qed
      ultimately show ?thesis using d by auto
    qed
    finally show ?thesis .
  qed
qed

lemma bit_0xff: "bit (0xff :: 'b::len word) m \<longleftrightarrow> m < 8 \<and> m < LENGTH('b)"
proof -
  have e: "(0xff :: 'b word) = mask 8" by (simp add: mask_eq_exp_minus_1)
  show ?thesis unfolding e bit_mask_iff by auto
qed

lemma length_toBigEndian_loop: "length (toBigEndian_loop i val out) = length out"
  by (induction i arbitrary: val out) (simp_all add: Let_def)

text \<open>After \<open>i\<close> rounds the encoding loop has written the low \<open>i\<close> bytes of the value into the
  positions below \<open>i\<close>, the least significant byte last.\<close>

lemma nth_toBigEndian_loop:
  "i \<le> length out \<Longrightarrow> k < length out \<Longrightarrow>
   toBigEndian_loop i val out ! k =
     (if k < i then ucast (drop_bit (8 * (i - 1 - k)) val AND 0xff) else out ! k)"
proof (induction i arbitrary: val out)
  case 0
  then show ?case by simp
next
  case (Suc i)
  show ?case
  proof (cases "k = i")
    case True
    with Suc show ?thesis by (simp add: Let_def)
  next
    case False
    then have "k < Suc i \<longleftrightarrow> k < i" by auto
    moreover have "i - k = Suc (i - 1 - k)" if "k < i" using that by simp
    ultimately show ?thesis using Suc False
      by (auto simp: Let_def drop_bit_drop_bit add.commute)
  qed
qed

lemma toBigEndian_fromBigEndian:
  fixes v :: "byte list"
  assumes "LENGTH('a::len) = 8 * length v" "length out = length v"
  shows "toBigEndian (fromBigEndian v :: 'a word) out = v"
proof (rule nth_equalityI)
  show "length (toBigEndian (fromBigEndian v :: 'a word) out) = length v"
    using assms by (simp add: toBigEndian_def length_toBigEndian_loop)
next
  fix k assume "k < length (toBigEndian (fromBigEndian v :: 'a word) out)"
  then have k: "k < length v" using assms by (simp add: toBigEndian_def length_toBigEndian_loop)
  let ?N = "length v"
  have "toBigEndian (fromBigEndian v :: 'a word) out ! k =
          ucast (drop_bit (8 * (?N - 1 - k)) (fromBigEndian v :: 'a word) AND 0xff)"
    using k assms by (simp add: toBigEndian_def nth_toBigEndian_loop)
  also have "\<dots> = v ! k"
  proof (rule bit_word_eqI)
    fix m assume m: "m < LENGTH(8)"
    then have m8: "m < 8" by simp
    have a: "8 * (?N - 1 - k) + m < 8 * ?N" using k m8 by simp
    have b: "(8 * (?N - 1 - k) + m) div 8 = ?N - 1 - k" "(8 * (?N - 1 - k) + m) mod 8 = m"
      using m8 by simp_all
    have c: "?N - 1 - (?N - 1 - k) = k" using k by simp
    let ?W = "fromBigEndian v :: 'a word"
    let ?s = "8 * (?N - 1 - k)"
    have ma: "m < LENGTH('a)" using m8 k assms(1) by simp
    have "bit (ucast (drop_bit ?s ?W AND 0xff) :: byte) m \<longleftrightarrow> bit (drop_bit ?s ?W AND 0xff) m"
      using m8 by (simp add: bit_unsigned_iff)
    also have "\<dots> \<longleftrightarrow> bit (drop_bit ?s ?W) m \<and> bit (0xff :: 'a word) m"
      by (simp only: bit_and_iff)
    also have "\<dots> \<longleftrightarrow> bit ?W (?s + m)"
      using m8 ma by (simp only: bit_0xff bit_drop_bit_eq) simp
    also have "\<dots> \<longleftrightarrow> bit (v ! k) m"
      unfolding bit_fromBigEndian using a b c assms(1) by simp
    finally show "bit (ucast (drop_bit ?s ?W AND 0xff) :: byte) m \<longleftrightarrow> bit (v ! k) m" .
  qed
  finally show "toBigEndian (fromBigEndian v :: 'a word) out ! k = v ! k" .
qed

text \<open>
  Claim C8. For every \<open>N\<close>-byte value \<open>v\<close>, when the arithmetic type has exactly \<open>N * 8\<close> bits,
  encoding the big-endian decoding of \<open>v\<close> with \<open>toBigEndian\<close> into any \<open>N\<close>-byte array gives back
  \<open>v\<close>.
\<close>

theorem toBigEndian_to_Arith_roundtrip:
  fixes v :: "byte list"
  assumes "LENGTH('a::len) = 8 * length v" and "length o_out = length v"
  shows "toBigEndian (to_Arith v :: 'a word) o_out = v"
  unfolding to_Arith_def using assms by (rule toBigEndian_fromBigEndian)

theorem toBigEndian_to_Arith_roundtrip_witness:
  "LENGTH(16) = 8 * length [0x12, 0x34 :: byte]
   \<and> toBigEndian (to_Arith [0x12, 0x34] :: 16 word) [0xCC, 0xCC] = [0x12, 0x34]"
  using toBigEndian_to_Arith_roundtrip [where 'a = 16 and v = "[0x12, 0x34]" and o_out = "[0xCC, 0xCC]"]
  by simp

section \<open>Equality\<close>

text \<open>Decoding as many bytes as the word holds loses nothing, so a \<^verbatim>\<open>uint64_t\<close> load determines
  its eight bytes in either byte order.\<close>

lemma fromBigEndian_inj:
  fixes xs ys :: "byte list"
  assumes "(fromBigEndian xs :: 'a::len word) = fromBigEndian ys"
    and "LENGTH('a) = 8 * length xs" and "length ys = length xs"
  shows "xs = ys"
proof -
  have "xs = toBigEndian (fromBigEndian xs :: 'a word) xs"
    using assms(2) by (simp add: toBigEndian_fromBigEndian)
  also have "\<dots> = toBigEndian (fromBigEndian ys :: 'a word) xs" using assms(1) by simp
  also have "\<dots> = ys" using assms(2,3) by (simp add: toBigEndian_fromBigEndian)
  finally show ?thesis .
qed

lemma load_u64_inj:
  assumes "load_u64 en a k = load_u64 en b k" and "8 * k + 8 \<le> length a" and "length b = length a"
  shows "take 8 (drop (8 * k) a) = take 8 (drop (8 * k) b)"
proof -
  let ?x = "take 8 (drop (8 * k) a)" and ?y = "take 8 (drop (8 * k) b)"
  have l: "length ?x = 8" "length ?y = 8" using assms(2,3) by simp_all
  show ?thesis
  proof (cases en)
    case LittleEndian
    then have "(fromBigEndian (rev ?x) :: 64 word) = fromBigEndian (rev ?y)"
      using assms(1) by (simp add: load_u64_def Let_def)
    then have "rev ?x = rev ?y" using l by (intro fromBigEndian_inj [where 'a = 64]) simp_all
    then show ?thesis by simp
  next
    case BigEndian
    then have "(fromBigEndian ?x :: 64 word) = fromBigEndian ?y"
      using assms(1) by (simp add: load_u64_def Let_def)
    then show ?thesis using l by (intro fromBigEndian_inj [where 'a = 64]) simp_all
  qed
qed

lemma h256_chunks:
  assumes "length a = 32"
  shows "a = take 8 (drop (8 * 0) a) @ take 8 (drop (8 * 1) a) @ take 8 (drop (8 * 2) a) @ take 8 (drop (8 * 3) a)"
proof -
  have "a = take 8 a @ drop 8 a" by simp
  also have "drop 8 a = take 8 (drop 8 a) @ drop 16 a"
    using append_take_drop_id [of 8 "drop 8 a"] by simp
  also have "drop 16 a = take 8 (drop 16 a) @ drop 24 a"
    using append_take_drop_id [of 8 "drop 16 a"] by simp
  also have "drop 24 a = take 8 (drop 24 a)" using assms by simp
  finally show ?thesis by simp
qed

lemma eq_h256_iff:
  assumes "length a = 32" and "length b = 32"
  shows "eq_h256 en a b \<longleftrightarrow> a = b"
proof
  assume e: "eq_h256 en a b"
  have "take 8 (drop (8 * k) a) = take 8 (drop (8 * k) b)" if "k < 4" for k
  proof -
    have "k = 0 \<or> k = 1 \<or> k = 2 \<or> k = 3" using that by arith
    then have "load_u64 en a k = load_u64 en b k" using e by (auto simp: eq_h256_def)
    moreover have "8 * k + 8 \<le> length a" using that assms by simp
    ultimately show ?thesis using assms by (intro load_u64_inj [where en = en]) simp_all
  qed
  from this [of 0] this [of 1] this [of 2] this [of 3]
  have "take 8 (drop (8 * 0) a) @ take 8 (drop (8 * 1) a) @ take 8 (drop (8 * 2) a) @ take 8 (drop (8 * 3) a)
      = take 8 (drop (8 * 0) b) @ take 8 (drop (8 * 1) b) @ take 8 (drop (8 * 2) b) @ take 8 (drop (8 * 3) b)"
    by simp
  then show "a = b" using h256_chunks [OF assms(1)] h256_chunks [OF assms(2)] by simp
next
  assume "a = b"
  then show "eq_h256 en a b" by (simp add: eq_h256_def)
qed

lemma op_eq_iff: "length a = length b \<Longrightarrow> op_eq en a b \<longleftrightarrow> a = b"
  by (simp add: op_eq_def eq_h256_iff eq_generic_def)

text \<open>
  Claim C6. For every pair of 32-byte values the specialised equality on four 64-bit words
  returns the same boolean as the generic byte-wise comparison, whatever the byte order of the
  machine; so does \<^verbatim>\<open>operator==\<close> as dispatched for \<open>N = 32\<close>.
\<close>

theorem eq_h256_refines_eq_generic:
  assumes "length a = 32" and "length b = 32"
  shows "eq_h256 en a b = eq_generic a b \<and> op_eq en a b = eq_generic a b"
  using assms by (simp add: eq_h256_iff op_eq_iff eq_generic_def)

theorem eq_h256_refines_eq_generic_witness:
  "eq_h256 LittleEndian (replicate 31 0 @ [1]) (replicate 31 0 @ [2]) = eq_generic (replicate 31 0 @ [1]) (replicate 31 0 @ [2])
   \<and> \<not> eq_generic (replicate 31 0 @ [1]) (replicate 31 0 @ [2 :: byte])
   \<and> eq_h256 BigEndian (replicate 32 7) (replicate 32 7)"
  using eq_h256_refines_eq_generic [of "replicate 31 0 @ [1]" "replicate 31 0 @ [2]" LittleEndian]
    eq_h256_refines_eq_generic [of "replicate 32 7" "replicate 32 7" BigEndian]
  by (simp add: eq_generic_def)

section \<open>The big-endian number of a value\<close>

lemma be_nat_Nil: "be_nat [] = 0"
  by (simp add: be_nat_def fromBigEndian_Nil)

lemma be_nat_snoc: "be_nat (xs @ [b]) = 256 * be_nat xs + unat b"
proof -
  have "push_bit 8 (be_nat xs) + unat b = push_bit 8 (be_nat xs) OR unat b"
  proof (rule disjunctive_add)
    fix n
    show "\<not> bit (push_bit 8 (be_nat xs)) n \<or> \<not> bit (unat b) n"
      by (auto simp: bit_push_bit_iff bit_unsigned_iff dest: bit_imp_le_length)
  qed
  then show ?thesis
    by (simp add: be_nat_def fromBigEndian_snoc push_bit_eq_mult)
qed

lemma be_nat_less: "be_nat xs < 256 ^ length xs"
proof (induction xs rule: rev_induct)
  case Nil
  then show ?case by (simp add: be_nat_Nil)
next
  case (snoc b xs)
  have "unat b < 256" using unsigned_less [of b] by simp
  with snoc show ?case by (simp add: be_nat_snoc)
qed

lemma be_nat_append: "be_nat (xs @ ys) = be_nat xs * 256 ^ length ys + be_nat ys"
proof (induction ys rule: rev_induct)
  case Nil
  then show ?case by (simp add: be_nat_Nil)
next
  case (snoc y ys)
  have "be_nat (xs @ ys @ [y]) = 256 * be_nat (xs @ ys) + unat y"
    using be_nat_snoc [of "xs @ ys" y] by simp
  then show ?case by (simp add: snoc be_nat_snoc algebra_simps)
qed

lemma be_nat_Cons: "be_nat (x # xs) = unat x * 256 ^ length xs + be_nat xs"
  using be_nat_append [of "[x]" xs] be_nat_snoc [of "[]" x] by (simp add: be_nat_Nil)

lemma digit_less:
  fixes x y K r1 r2 :: nat
  assumes "x < y" "r1 < K"
  shows "x * K + r1 < y * K + r2"
proof -
  have "x * K + r1 < Suc x * K" using assms(2) by simp
  also have "\<dots> \<le> y * K" using assms(1) by (intro mult_le_mono1) simp
  finally show ?thesis by simp
qed

lemma be_nat_inj: "length xs = length ys \<Longrightarrow> be_nat xs = be_nat ys \<Longrightarrow> xs = ys"
proof (induction xs ys rule: list_induct2)
  case Nil
  then show ?case by simp
next
  case (Cons x xs y ys)
  let ?K = "256 ^ length xs :: nat"
  have e: "unat x * ?K + be_nat xs = unat y * ?K + be_nat ys"
    using Cons.prems Cons.hyps by (simp add: be_nat_Cons)
  have rx: "be_nat xs < ?K" by (rule be_nat_less)
  have ry: "be_nat ys < ?K" using be_nat_less [of ys] Cons.hyps by simp
  have "\<not> unat x < unat y" using digit_less [of "unat x" "unat y" "be_nat xs" ?K "be_nat ys"] rx e by auto
  moreover have "\<not> unat y < unat x" using digit_less [of "unat y" "unat x" "be_nat ys" ?K "be_nat xs"] ry e by auto
  ultimately have u: "unat x = unat y" by simp
  then have "x = y" by (simp add: word_unat_eq_iff)
  moreover have "be_nat xs = be_nat ys" using e u by simp
  ultimately show ?case using Cons.IH by simp
qed

section \<open>Increment\<close>

text \<open>The loop started at position \<open>length xs\<close> never touches what lies behind that position.\<close>

lemma inc_loop_append: "inc_loop (length xs) (xs @ ys) = inc_loop (length xs) xs @ ys"
proof (induction xs arbitrary: ys rule: rev_induct)
  case Nil
  then show ?case by simp
next
  case (snoc z zs)
  have a: "inc_loop (length zs) (zs @ 0 # ys) = inc_loop (length zs) zs @ 0 # ys"
    using snoc [of "0 # ys"] by simp
  have b: "inc_loop (length zs) (zs @ [0]) = inc_loop (length zs) zs @ [0]"
    using snoc [of "[0]"] by simp
  show ?case by (simp add: Let_def a b)
qed

lemma inc_loop_be_nat:
  "length (inc_loop (length xs) xs) = length xs \<and>
   be_nat (inc_loop (length xs) xs) = (be_nat xs + 1) mod 256 ^ length xs"
proof (induction xs rule: rev_induct)
  case Nil
  then show ?case by (simp add: be_nat_Nil)
next
  case (snoc z zs)
  let ?n = "length zs"
  show ?case
  proof (cases "z + 1 = 0")
    case True
    then have "z = - 1" by (simp add: eq_neg_iff_add_eq_0)
    moreover have "(- 1 :: byte) = 255" by simp
    ultimately have z: "unat z = 255" by simp
    have s: "inc_loop (length (zs @ [z])) (zs @ [z]) = inc_loop ?n zs @ [0]"
      using True inc_loop_append [of zs "[0]"] by (simp add: Let_def)
    have "be_nat (zs @ [z]) + 1 = 256 * (be_nat zs + 1)" using z by (simp add: be_nat_snoc)
    then have "(be_nat (zs @ [z]) + 1) mod 256 ^ length (zs @ [z]) = 256 * ((be_nat zs + 1) mod 256 ^ ?n)"
      by (simp add: mult_mod_right)
    then show ?thesis using snoc s by (simp add: be_nat_snoc)
  next
    case False
    then have z: "unat (z + 1) = unat z + 1"
      by (simp add: add.commute unatSuc)
    have s: "inc_loop (length (zs @ [z])) (zs @ [z]) = zs @ [z + 1]"
      using False by (simp add: Let_def)
    have "unat (z + 1) < 256" using unsigned_less [of "z + 1"] by simp
    then have "be_nat (zs @ [z]) + 1 < 256 ^ length (zs @ [z])"
      using be_nat_less [of zs] z by (simp add: be_nat_snoc)
    then show ?thesis using s z by (simp add: be_nat_snoc)
  qed
qed

lemma inc_loop_all_ff: "inc_loop N (replicate N 0xFF) = replicate N 0"
proof (induction N)
  case 0
  then show ?case by simp
next
  case (Suc N)
  have o: "(0xFF :: byte) + 1 = 0" by simp
  have n: "replicate (Suc N) (0xFF :: byte) ! N = 0xFF" by (simp only: nth_replicate lessI)
  have u: "(replicate (Suc N) (0xFF :: byte))[N := 0] = replicate N 0xFF @ [0]"
    by (metis length_replicate list_update_length replicate_Suc replicate_append_same)
  have z: "(replicate N 0xFF @ [0 :: byte]) ! N = 0" by (simp add: nth_append)
  have "inc_loop (Suc N) (replicate (Suc N) 0xFF) = inc_loop N (replicate N 0xFF @ [0])"
    by (simp only: inc_loop.simps Let_def n o u z) simp
  also have "\<dots> = inc_loop N (replicate N 0xFF) @ [0]"
    using inc_loop_append [of "replicate N 0xFF" "[0]"] by simp
  also have "\<dots> = replicate (Suc N) 0"
    by (simp only: Suc replicate_append_same) simp
  finally show ?case .
qed

text \<open>
  Claim C3. For every value \<open>v\<close> of size \<open>N\<close>, the pre-increment keeps the size and the big-endian
  number of the result is that of \<open>v\<close> plus one modulo \<open>2 ^ (N * 8)\<close>; the all-\<open>0xFF\<close> value becomes the
  all-zero value. The operator is a total function: it has no error result.
\<close>

theorem op_inc_adds_one_big_endian:
  "length (op_inc v) = length v
   \<and> be_nat (op_inc v) = (be_nat v + 1) mod 2 ^ (length v * 8)
   \<and> op_inc (replicate N 0xFF) = replicate N 0"
proof -
  have "(2 :: nat) ^ (length v * 8) = (2 ^ 8) ^ length v"
    by (simp only: mult.commute [of "length v" 8] power_mult)
  then have "(256 :: nat) ^ length v = 2 ^ (length v * 8)" by simp
  then show ?thesis
    using inc_loop_be_nat [of v] inc_loop_all_ff [of N] by (simp add: op_inc_def)
qed

section \<open>Ordering\<close>

text \<open>The comparison loop started at \<open>i\<close> answers true exactly if there is a first position from \<open>i\<close> on
  where the two values differ and the left byte is the smaller one there.\<close>

lemma lt_loop_lex:
  "lt_loop i N a c \<longleftrightarrow>
     (\<exists>k. i \<le> k \<and> k < N \<and> a ! k < c ! k \<and> (\<forall>j. i \<le> j \<and> j < k \<longrightarrow> a ! j = c ! j))"
proof (induction i N a c rule: lt_loop.induct)
  case (1 i N a c)
  let ?R = "\<lambda>i. \<exists>k. i \<le> k \<and> k < N \<and> a ! k < c ! k \<and> (\<forall>j. i \<le> j \<and> j < k \<longrightarrow> a ! j = c ! j)"
  show ?case
  proof (cases "i < N")
    case False
    then show ?thesis by (subst lt_loop.simps) auto
  next
    case True
    consider (lt) "a ! i < c ! i" | (gt) "a ! i > c ! i" | (eq) "a ! i = c ! i"
      by (metis linorder_neqE)
    then show ?thesis
    proof cases
      case lt
      then have "?R i" using True by (intro exI [of _ i]) auto
      moreover have "lt_loop i N a c" using True lt by (subst lt_loop.simps) simp
      ultimately show ?thesis by simp
    next
      case gt
      have "\<not> ?R i"
      proof
        assume "?R i"
        then obtain k where k: "i \<le> k" "k < N" "a ! k < c ! k" "\<forall>j. i \<le> j \<and> j < k \<longrightarrow> a ! j = c ! j"
          by blast
        show False
        proof (cases "k = i")
          case True
          then show False using k(3) gt by simp
        next
          case False
          then have "a ! i = c ! i" using k(1,4) by simp
          then show False using gt by simp
        qed
      qed
      moreover have "\<not> lt_loop i N a c" using True gt by (subst lt_loop.simps) auto
      ultimately show ?thesis by simp
    next
      case eq
      have "lt_loop i N a c = lt_loop (i + 1) N a c" using True eq by (subst lt_loop.simps) simp
      also have "\<dots> \<longleftrightarrow> ?R (i + 1)" using "1.IH" True eq by simp
      also have "\<dots> \<longleftrightarrow> ?R i"
      proof
        assume "?R (i + 1)"
        then obtain k where k: "i + 1 \<le> k" "k < N" "a ! k < c ! k" "\<forall>j. i + 1 \<le> j \<and> j < k \<longrightarrow> a ! j = c ! j"
          by blast
        have "a ! j = c ! j" if "i \<le> j \<and> j < k" for j
          using that k(4) eq by (cases "j = i") auto
        then show "?R i" using k by (intro exI [of _ k]) auto
      next
        assume "?R i"
        then obtain k where k: "i \<le> k" "k < N" "a ! k < c ! k" "\<forall>j. i \<le> j \<and> j < k \<longrightarrow> a ! j = c ! j"
          by blast
        have "k \<noteq> i" using k(3) eq by auto
        then show "?R (i + 1)" using k by (intro exI [of _ k]) auto
      qed
      finally show ?thesis .
    qed
  qed
qed

text \<open>The same loop compares the big-endian numbers of what is left from position \<open>i\<close> on.\<close>

lemma lt_loop_be_nat:
  "length a = N \<Longrightarrow> length c = N \<Longrightarrow> i \<le> N \<Longrightarrow>
   lt_loop i N a c \<longleftrightarrow> be_nat (drop i a) < be_nat (drop i c)"
proof (induction i N a c rule: lt_loop.induct)
  case (1 i N a c)
  show ?case
  proof (cases "i < N")
    case False
    then have "drop i a = []" "drop i c = []" using "1.prems" by simp_all
    then show ?thesis using False by (subst lt_loop.simps) simp
  next
    case True
    let ?K = "256 ^ (N - Suc i) :: nat"
    have da: "drop i a = a ! i # drop (Suc i) a" and dc: "drop i c = c ! i # drop (Suc i) c"
      using True "1.prems" by (simp_all add: Cons_nth_drop_Suc)
    have ba: "be_nat (drop i a) = unat (a ! i) * ?K + be_nat (drop (Suc i) a)"
      and bc: "be_nat (drop i c) = unat (c ! i) * ?K + be_nat (drop (Suc i) c)"
      using "1.prems" by (simp_all add: da dc be_nat_Cons)
    have ra: "be_nat (drop (Suc i) a) < ?K" and rc: "be_nat (drop (Suc i) c) < ?K"
      using be_nat_less [of "drop (Suc i) a"] be_nat_less [of "drop (Suc i) c"] "1.prems" by simp_all
    consider (lt) "a ! i < c ! i" | (gt) "a ! i > c ! i" | (eq) "a ! i = c ! i"
      by (metis linorder_neqE)
    then show ?thesis
    proof cases
      case lt
      then have "unat (a ! i) < unat (c ! i)" by (simp add: word_less_nat_alt)
      then have "be_nat (drop i a) < be_nat (drop i c)" unfolding ba bc using ra by (rule digit_less)
      moreover have "lt_loop i N a c" using True lt by (subst lt_loop.simps) simp
      ultimately show ?thesis by simp
    next
      case gt
      then have "unat (c ! i) < unat (a ! i)" by (simp add: word_less_nat_alt)
      then have "be_nat (drop i c) < be_nat (drop i a)" unfolding ba bc using rc by (rule digit_less)
      moreover have "\<not> lt_loop i N a c" using True gt by (subst lt_loop.simps) auto
      ultimately show ?thesis by simp
    next
      case eq
      have "lt_loop i N a c = lt_loop (i + 1) N a c" using True eq by (subst lt_loop.simps) simp
      also have "\<dots> \<longleftrightarrow> be_nat (drop (i + 1) a) < be_nat (drop (i + 1) c)"
      proof (rule "1.IH")
        show "i < N" by (rule True)
        show "\<not> a ! i < c ! i" "\<not> c ! i < a ! i" using eq by simp_all
        show "length a = N" "length c = N" using "1.prems" by simp_all
        show "i + 1 \<le> N" using True by simp
      qed
      also have "\<dots> \<longleftrightarrow> be_nat (drop i a) < be_nat (drop i c)"
        by (simp only: ba bc eq nat_add_left_cancel_less Suc_eq_plus1)
      finally show ?thesis .
    qed
  qed
qed

lemma op_lt_be_nat:
  assumes "length b = length a"
  shows "op_lt a b \<longleftrightarrow> be_nat a < be_nat b"
proof -
  have "lt_loop 0 (length a) a b \<longleftrightarrow> be_nat (drop 0 a) < be_nat (drop 0 b)"
    using assms by (intro lt_loop_be_nat) simp_all
  then show ?thesis by (simp add: op_lt_def)
qed

lemma op_lt_lex: "op_lt a b \<longleftrightarrow> (\<exists>k<length a. a ! k < b ! k \<and> (\<forall>j<k. a ! j = b ! j))"
  unfolding op_lt_def lt_loop_lex by auto

text \<open>
  Claim C7. For values \<open>a\<close> and \<open>b\<close> of the same size \<open>N\<close>: \<open><\<close> is the lexicographic byte-wise comparison
  from index 0; \<open><\<close>, \<open><=\<close>, \<open>>\<close>, \<open>>=\<close> and \<open>==\<close> agree with the comparison of the unsigned big-endian
  numbers; and \<open><\<close> with equality is a total order: exactly one of \<open>a < b\<close>, \<open>a == b\<close>, \<open>b < a\<close> holds,
  and \<open><\<close> is transitive.
\<close>

theorem relational_operators_big_endian_order:
  assumes "length a = N" and "length b = N"
  shows "(op_lt a b \<longleftrightarrow> (\<exists>k<N. a ! k < b ! k \<and> (\<forall>j<k. a ! j = b ! j)))
       \<and> (op_lt a b \<longleftrightarrow> be_nat a < be_nat b)
       \<and> (op_le en a b \<longleftrightarrow> be_nat a \<le> be_nat b)
       \<and> (op_gt en a b \<longleftrightarrow> be_nat a > be_nat b)
       \<and> (op_ge a b \<longleftrightarrow> be_nat a \<ge> be_nat b)
       \<and> (op_eq en a b \<longleftrightarrow> be_nat a = be_nat b)
       \<and> (op_lt a b \<or> op_eq en a b \<or> op_lt b a)
       \<and> \<not> (op_lt a b \<and> op_lt b a) \<and> \<not> (op_lt a b \<and> op_eq en a b) \<and> \<not> (op_lt b a \<and> op_eq en a b)
       \<and> (\<forall>c. length c = N \<longrightarrow> op_lt a b \<longrightarrow> op_lt b c \<longrightarrow> op_lt a c)"
proof -
  have lt: "op_lt a b \<longleftrightarrow> be_nat a < be_nat b" and lt': "op_lt b a \<longleftrightarrow> be_nat b < be_nat a"
    using assms by (simp_all add: op_lt_be_nat)
  have eq: "op_eq en a b \<longleftrightarrow> be_nat a = be_nat b"
    using assms be_nat_inj [of a b] by (auto simp: op_eq_iff)
  have lex: "op_lt a b \<longleftrightarrow> (\<exists>k<N. a ! k < b ! k \<and> (\<forall>j<k. a ! j = b ! j))"
    using assms op_lt_lex [of a b] by simp
  have tr: "op_lt a c" if "length c = N" "op_lt a b" "op_lt b c" for c
    using that assms by (simp add: op_lt_be_nat)
  have "(op_le en a b \<longleftrightarrow> be_nat a \<le> be_nat b)" "(op_gt en a b \<longleftrightarrow> be_nat a > be_nat b)"
    "(op_ge a b \<longleftrightarrow> be_nat a \<ge> be_nat b)"
    using lt eq by (auto simp: op_le_def op_gt_def op_ge_def)
  moreover have "op_lt a b \<or> op_eq en a b \<or> op_lt b a" "\<not> (op_lt a b \<and> op_lt b a)"
    "\<not> (op_lt a b \<and> op_eq en a b)" "\<not> (op_lt b a \<and> op_eq en a b)"
    using lt lt' eq by auto
  ultimately show ?thesis using lt eq lex tr by blast
qed

theorem relational_operators_big_endian_order_witness:
  "op_lt [1, 0xFF] [2, 0] \<and> be_nat [1, 0xFF] < be_nat [2, 0] \<and> op_le LittleEndian [1, 0xFF] [2, 0]
   \<and> \<not> op_gt LittleEndian [1, 0xFF] [2, 0] \<and> \<not> op_ge [1, 0xFF] [2, 0] \<and> \<not> op_eq LittleEndian [1, 0xFF] [2, 0]"
proof -
  have l: "op_lt [1, 0xFF] [2, 0]"
    by (simp add: op_lt_def lt_loop.simps)
  show ?thesis
    using relational_operators_big_endian_order [of "[1, 0xFF]" 2 "[2, 0]" LittleEndian] l
    by auto
qed

section \<open>First set bit\<close>

lemma and_0x80_iff: "(d :: byte) AND 0x80 \<noteq> 0 \<longleftrightarrow> bit d 7"
proof -
  have "(0x80 :: byte) = 2 ^ 7" by simp
  then show ?thesis by (simp only: and_exp_eq_0_iff_not_bit) simp
qed

text \<open>The inner loop returns as soon as the byte has a set bit: after \<open>j\<close> shifts if the first set
  bit from the top is \<open>j\<close> places down.\<close>

lemma firstBitSet_scan_finds:
  "j < 8 \<Longrightarrow> bit d (7 - j) \<Longrightarrow> (\<forall>i<j. \<not> bit d (7 - i)) \<Longrightarrow>
   firstBitSet_scan ret d = Some (ret + of_nat j)"
proof (induction j arbitrary: ret d)
  case 0
  then have "d AND 0x80 \<noteq> 0" by (simp add: and_0x80_iff)
  then show ?case by (subst firstBitSet_scan.simps) simp
next
  case (Suc j)
  have "\<not> bit d 7" using Suc.prems(3) [rule_format, of 0] by simp
  then have z: "d AND 0x80 = 0" using and_0x80_iff [of d] by simp
  let ?d = "push_bit 1 d :: byte"
  have sh: "bit ?d (7 - i) \<longleftrightarrow> bit d (7 - Suc i)" if "i < 7" for i
  proof -
    show ?thesis
      by (simp only: bit_push_bit_iff possible_bit_word) (use that in auto)
  qed
  have "firstBitSet_scan (ret + 1) ?d = Some (ret + 1 + of_nat j)"
  proof (rule Suc.IH)
    show "j < 8" using Suc.prems(1) by simp
    show "bit ?d (7 - j)" using Suc.prems(1,2) sh [of j] by simp
    show "\<forall>i<j. \<not> bit ?d (7 - i)"
    proof (intro allI impI)
      fix i assume i: "i < j"
      then have "i < 7" using Suc.prems(1) by simp
      then have "bit ?d (7 - i) \<longleftrightarrow> bit d (7 - Suc i)" by (rule sh)
      moreover have "\<not> bit d (7 - Suc i)" using Suc.prems(3) [rule_format, of "Suc i"] i by simp
      ultimately show "\<not> bit ?d (7 - i)" by simp
    qed
  qed
  then show ?case using z by (subst firstBitSet_scan.simps) simp
qed

lemma nonzero_byte_first_bit:
  assumes "(d :: byte) \<noteq> 0"
  shows "\<exists>j<8. bit d (7 - j) \<and> (\<forall>i<j. \<not> bit d (7 - i))"
proof -
  obtain n where n: "bit d n" using assms by (auto simp: bit_eq_iff)
  then have "n < 8" by (auto dest: bit_imp_le_length)
  then have "\<exists>j. j < 8 \<and> bit d (7 - j)" using n by (intro exI [of _ "7 - n"]) simp
  then obtain j where j: "j < 8 \<and> bit d (7 - j)" "\<forall>i<j. \<not> (i < 8 \<and> bit d (7 - i))"
    using exists_least_iff [of "\<lambda>j. j < 8 \<and> bit d (7 - j)"] by auto
  then show ?thesis by (intro exI [of _ j]) auto
qed

lemma msb_bit_Cons:
  "msb_bit (d # ds) k \<longleftrightarrow> (if k < 8 then bit d (7 - k) else msb_bit ds (k - 8))"
proof (cases "k < 8")
  case True
  then show ?thesis by (simp add: msb_bit_def)
next
  case False
  then obtain j where j: "k = j + 8" by (metis le_add_diff_inverse2 not_less)
  have "(j + 8) div 8 = Suc (j div 8)" "(j + 8) mod 8 = j mod 8" by simp_all
  then show ?thesis unfolding j by (simp add: msb_bit_def)
qed

lemma firstBitSet_loop_spec:
  "\<exists>r. firstBitSet_loop ret ds = Some (ret + of_nat r) \<and> r \<le> 8 * length ds
       \<and> (\<forall>k<r. \<not> msb_bit ds k) \<and> (r < 8 * length ds \<longrightarrow> msb_bit ds r)"
proof (induction ds arbitrary: ret)
  case Nil
  then show ?case by simp
next
  case (Cons d ds)
  show ?case
  proof (cases "d = 0")
    case True
    from Cons [of "ret + 8"] obtain r where r:
      "firstBitSet_loop (ret + 8) ds = Some (ret + 8 + of_nat r)" "r \<le> 8 * length ds"
      "\<forall>k<r. \<not> msb_bit ds k" "r < 8 * length ds \<longrightarrow> msb_bit ds r"
      by blast
    show ?thesis
    proof (intro exI [of _ "8 + r"] conjI)
      show "firstBitSet_loop ret (d # ds) = Some (ret + of_nat (8 + r))"
        using True r(1) by (simp add: add.assoc)
      show "8 + r \<le> 8 * length (d # ds)" using r(2) by simp
      show "\<forall>k<8 + r. \<not> msb_bit (d # ds) k" using True r(3) by (auto simp: msb_bit_Cons)
      show "8 + r < 8 * length (d # ds) \<longrightarrow> msb_bit (d # ds) (8 + r)"
        using r(4) by (simp add: msb_bit_Cons)
    qed
  next
    case False
    then obtain j where j: "j < 8" "bit d (7 - j)" "\<forall>i<j. \<not> bit d (7 - i)"
      using nonzero_byte_first_bit by blast
    show ?thesis
    proof (intro exI [of _ j] conjI)
      show "firstBitSet_loop ret (d # ds) = Some (ret + of_nat j)"
        using False firstBitSet_scan_finds [OF j] by simp
      show "j \<le> 8 * length (d # ds)" using j(1) by simp
      show "\<forall>k<j. \<not> msb_bit (d # ds) k" using j by (auto simp: msb_bit_Cons)
      show "j < 8 * length (d # ds) \<longrightarrow> msb_bit (d # ds) j" using j by (simp add: msb_bit_Cons)
    qed
  qed
qed

lemma all_zero_iff_no_msb_bit:
  "v = replicate (length v) 0 \<longleftrightarrow> (\<forall>k<8 * length v. \<not> msb_bit v k)"
proof
  assume "v = replicate (length v) 0"
  then have "v ! i = 0" if "i < length v" for i using that by (metis nth_replicate)
  then show "\<forall>k<8 * length v. \<not> msb_bit v k" by (auto simp: msb_bit_def)
next
  assume a: "\<forall>k<8 * length v. \<not> msb_bit v k"
  have "v ! i = 0" if i: "i < length v" for i
  proof (rule bit_eqI)
    fix n assume "possible_bit TYPE(byte) n"
    then have n: "n < 8" by (simp add: possible_bit_word)
    define m where "m = 7 - n"
    have m: "m < 8" "7 - m = n" using n by (simp_all add: m_def)
    have "8 * i + m < 8 * length v" using i m(1) by simp
    then have "\<not> msb_bit v (8 * i + m)" using a by blast
    moreover have "(8 * i + m) div 8 = i" "(8 * i + m) mod 8 = m"
      using m(1) by simp_all
    ultimately show "bit (v ! i) n \<longleftrightarrow> bit (0 :: byte) n" using m(2) by (simp add: msb_bit_def)
  qed
  then show "v = replicate (length v) 0" by (intro nth_equalityI) simp_all
qed

lemma firstBitSet_spec:
  assumes "8 * length v < 2 ^ 32"
  shows "\<exists>r. firstBitSet v = Some r \<and> unat r \<le> 8 * length v
       \<and> (\<forall>k<unat r. \<not> msb_bit v k) \<and> (unat r < 8 * length v \<longrightarrow> msb_bit v (unat r))"
proof -
  from firstBitSet_loop_spec [of 0 v] obtain r where r:
    "firstBitSet_loop 0 v = Some (of_nat r)" "r \<le> 8 * length v"
    "\<forall>k<r. \<not> msb_bit v k" "r < 8 * length v \<longrightarrow> msb_bit v r"
    by auto
  have "r < 2 ^ 32" using r(2) assms by simp
  then have "unat (of_nat r :: 32 word) = r" by (simp add: unat_of_nat)
  then show ?thesis using r by (intro exI [of _ "of_nat r"]) (simp add: firstBitSet_def)
qed

text \<open>
  As long as \<open>N * 8\<close> is a value of the result type \<^verbatim>\<open>unsigned\<close>, \<open>firstBitSet\<close> returns, and what it
  returns is the index of the first set bit, counting from the most significant bit of byte 0:
  no bit below it is set, the bit at it is set unless it is \<open>N * 8\<close>, and it is \<open>N * 8\<close> exactly on
  the all-zero value. On the value whose only set bit is the least significant bit of the last
  byte it returns \<open>N * 8 - 1\<close>.
\<close>

lemma firstBitSet_first_set_bit_bounded:
  assumes "length v = N" and "8 * N < 2 ^ 32"
  shows "(\<exists>r. firstBitSet v = Some r \<and> unat r \<le> N * 8
            \<and> (\<forall>k<unat r. \<not> msb_bit v k) \<and> (unat r < N * 8 \<longrightarrow> msb_bit v (unat r))
            \<and> (unat r = N * 8 \<longleftrightarrow> v = replicate N 0))
       \<and> firstBitSet (replicate N 0) = Some (of_nat (N * 8))
       \<and> (0 < N \<longrightarrow> firstBitSet (replicate (N - 1) 0 @ [1]) = Some (of_nat (N * 8 - 1)))"
proof (intro conjI impI)
  from firstBitSet_spec [of v] assms obtain r where r:
    "firstBitSet v = Some r" "unat r \<le> N * 8" "\<forall>k<unat r. \<not> msb_bit v k"
    "unat r < N * 8 \<longrightarrow> msb_bit v (unat r)"
    by (auto simp: mult.commute)
  have z: "v = replicate N 0 \<longleftrightarrow> (\<forall>k<N * 8. \<not> msb_bit v k)"
    using all_zero_iff_no_msb_bit [of v] assms(1) by (simp add: mult.commute)
  have "unat r = N * 8 \<longleftrightarrow> v = replicate N 0"
  proof
    assume "unat r = N * 8"
    then show "v = replicate N 0" using r(3) z by simp
  next
    assume "v = replicate N 0"
    then have "\<not> unat r < N * 8" using z r(4) by blast
    then show "unat r = N * 8" using r(2) by simp
  qed
  then show "\<exists>r. firstBitSet v = Some r \<and> unat r \<le> N * 8
            \<and> (\<forall>k<unat r. \<not> msb_bit v k) \<and> (unat r < N * 8 \<longrightarrow> msb_bit v (unat r))
            \<and> (unat r = N * 8 \<longleftrightarrow> v = replicate N 0)"
    using r by blast
next
  let ?z = "replicate N (0 :: byte)"
  from firstBitSet_spec [of ?z] assms(2) obtain r where r:
    "firstBitSet ?z = Some r" "unat r \<le> N * 8" "unat r < N * 8 \<longrightarrow> msb_bit ?z (unat r)"
    by (auto simp: mult.commute)
  have "\<not> msb_bit ?z k" if "k < 8 * N" for k
    using all_zero_iff_no_msb_bit [of ?z] that by simp
  then have "unat r = N * 8" using r(2,3) by (auto simp: mult.commute)
  moreover have "of_nat (unat r) = r" by simp
  ultimately have "r = of_nat (N * 8)" by simp
  then show "firstBitSet ?z = Some (of_nat (N * 8))" using r(1) by simp
next
  assume N: "0 < N"
  let ?o = "replicate (N - 1) (0 :: byte) @ [1]"
  have l: "length ?o = N" using N by simp
  from firstBitSet_spec [of ?o] assms(2) l obtain r where r:
    "firstBitSet ?o = Some r" "unat r \<le> N * 8" "\<forall>k<unat r. \<not> msb_bit ?o k"
    "unat r < N * 8 \<longrightarrow> msb_bit ?o (unat r)"
    by (auto simp: mult.commute)
  have last: "msb_bit ?o (N * 8 - 1)"
  proof -
    obtain M where M: "N = Suc M" using N by (cases N) auto
    have "N * 8 - 1 = 8 * M + 7" unfolding M by simp
    then have "(N * 8 - 1) div 8 = N - 1" "(N * 8 - 1) mod 8 = 7" unfolding M by simp_all
    then show ?thesis by (simp add: msb_bit_def nth_append)
  qed
  have only: "k = N * 8 - 1" if "msb_bit ?o k" "k < N * 8" for k
  proof -
    have d: "k div 8 < N" using that(2) by simp
    have "k div 8 = N - 1"
    proof (rule ccontr)
      assume "k div 8 \<noteq> N - 1"
      then have "k div 8 < N - 1" using d by simp
      then have "?o ! (k div 8) = 0" by (simp add: nth_append)
      then show False using that(1) by (simp add: msb_bit_def)
    qed
    moreover from this have "bit (1 :: byte) (7 - k mod 8)" using that(1) by (simp add: msb_bit_def nth_append)
    then have "k mod 8 = 7" by (simp add: bit_1_iff)
    moreover have "k = 8 * (k div 8) + k mod 8" by simp
    ultimately have "k = 8 * (N - 1) + 7" by simp
    then show ?thesis using N by simp
  qed
  have "\<not> N * 8 - 1 < unat r" using r(3) last by blast
  then have "unat r < N * 8" using N by simp
  then have "unat r = N * 8 - 1" using r(4) only by blast
  moreover have "of_nat (unat r) = r" by simp
  ultimately have "r = of_nat (N * 8 - 1)" by metis
  then show "firstBitSet ?o = Some (of_nat (N * 8 - 1))" using r(1) by simp
qed

lemma firstBitSet_first_set_bit_bounded_example:
  "firstBitSet (replicate 3 0) = Some 24 \<and> firstBitSet (replicate 2 0 @ [1]) = Some 23
   \<and> firstBitSet [0, 0x20, 0xFF] = Some 10
   \<and> (\<exists>r. firstBitSet [0, 0x20, 0xFF] = Some r \<and> msb_bit [0, 0x20, 0xFF] (unat r))"
proof -
  have l: "length [0, 0x20, 0xFF :: byte] = 3" and b: "8 * 3 < (2 :: nat) ^ 32" by simp_all
  have e: "firstBitSet [0, 0x20, 0xFF] = Some 10"
    by (simp add: firstBitSet_def firstBitSet_scan.simps)
  have n: "[0, 0x20, 0xFF :: byte] \<noteq> replicate 3 0" by (simp add: numeral_3_eq_3)
  from firstBitSet_first_set_bit_bounded [OF l b] e n show ?thesis
    by auto
qed

text \<open>Every zero byte adds 8 to the 32-bit counter, which wraps.\<close>

lemma firstBitSet_loop_zeros:
  "firstBitSet_loop ret (replicate n 0 @ ds) = firstBitSet_loop (ret + 8 * of_nat n) ds"
proof (induction n arbitrary: ret)
  case 0
  then show ?case by simp
next
  case (Suc n)
  have "firstBitSet_loop ret (replicate (Suc n) 0 @ ds) = firstBitSet_loop (ret + 8) (replicate n 0 @ ds)"
    by simp
  also have "\<dots> = firstBitSet_loop (ret + 8 + 8 * of_nat n) ds" by (rule Suc)
  also have "ret + 8 + 8 * of_nat n = ret + 8 * of_nat (Suc n)" by (simp add: algebra_simps)
  finally show ?case .
qed

text \<open>
  Claim C9. \<open>firstBitSet\<close> should return the index of the first set bit, and \<open>N * 8\<close> on the all-zero
  value. On the all-zero value of size \<open>N = 2 ^ 29\<close> the counter has wrapped and the result is 0, not
  \<open>N * 8 = 4294967296\<close>; on the value of size \<open>2 ^ 29 + 1\<close> whose only set bit is the most significant
  bit of the last byte the result is 0 as well, and bit 0 of that value is not set.
\<close>

theorem firstBitSet_counter_wraps:
  "firstBitSet (replicate (2 ^ 29) 0) = Some 0
   \<and> firstBitSet (replicate (2 ^ 29) 0 @ [0x80]) = Some 0
   \<and> \<not> msb_bit (replicate (2 ^ 29) 0 @ [0x80]) 0
   \<and> (2 :: nat) ^ 29 * 8 = 4294967296"
proof -
  have w: "(8 :: 32 word) * of_nat (2 ^ 29) = 0" by simp
  have a: "firstBitSet (replicate (2 ^ 29) 0) = Some 0"
    using firstBitSet_loop_zeros [of 0 "2 ^ 29" "[]"] unfolding w by (simp add: firstBitSet_def)
  have "firstBitSet_scan 0 0x80 = Some 0" by (subst firstBitSet_scan.simps) simp
  then have b: "firstBitSet (replicate (2 ^ 29) 0 @ [0x80]) = Some 0"
    using firstBitSet_loop_zeros [of 0 "2 ^ 29" "[0x80]"] unfolding w by (simp add: firstBitSet_def)
  have c: "\<not> msb_bit (replicate (2 ^ 29) 0 @ [0x80]) 0"
    by (simp add: msb_bit_def nth_append)
  show ?thesis using a b c by simp
qed

section \<open>Bloom filter parts against their specification\<close>

lemma StaticLog2_power: "StaticLog2 (2 ^ l) = Some l"
proof (induction l)
  case 0
  then show ?case by (subst StaticLog2.simps) simp
next
  case (Suc l)
  have "(2 :: nat) ^ Suc l \<noteq> 0" "(2 :: nat) ^ Suc l \<noteq> 1" "(2 :: nat) ^ Suc l div 2 = 2 ^ l" by simp_all
  then show ?case using Suc by (subst StaticLog2.simps) (simp only: if_False, simp)
qed

lemma power_of_two_and_pred: "(2 :: nat) ^ e AND (2 ^ e - 1) = 0"
proof -
  have "(2 :: nat) ^ e AND mask e = 0"
    by (rule bit_eqI) (auto simp: bit_and_iff bit_mask_iff bit_exp_iff)
  then show ?thesis by (simp only: mask_eq_exp_minus_1)
qed

text \<open>Decoding into a word is decoding into a natural number, reduced to the width.\<close>

lemma fromBigEndian_of_nat: "(fromBigEndian xs :: 'a::len word) = of_nat (be_nat xs)"
proof (induction xs rule: rev_induct)
  case Nil
  then show ?case by (simp add: be_nat_def fromBigEndian_Nil)
next
  case (snoc b xs)
  have "(of_nat (be_nat (xs @ [b])) :: 'a word) = of_nat (push_bit 8 (be_nat xs) OR unat b)"
    by (simp add: be_nat_def fromBigEndian_snoc)
  also have "\<dots> = push_bit 8 (of_nat (be_nat xs)) OR of_nat (unat b)"
    by (simp only: of_nat_or_eq of_nat_push_bit)
  also have "\<dots> = fromBigEndian (xs @ [b])"
    by (simp add: fromBigEndian_snoc snoc)
  finally show ?case by simp
qed

text \<open>The inner loop reads the \<open>n\<close> bytes from \<open>p\<close> on as a big-endian number and leaves the pointer
  behind them.\<close>

lemma bloom_read_eq:
  "p + n \<le> length d \<Longrightarrow> bloom_read n d p = (fromBigEndian (take n (drop p d)), p + n)"
proof (induction n)
  case 0
  then show ?case by (simp add: bloom_read_def fromBigEndian_Nil)
next
  case (Suc n)
  then have IH: "bloom_read n d p = (fromBigEndian (take n (drop p d)), p + n)" by simp
  have t: "take (Suc n) (drop p d) = take n (drop p d) @ [d ! (p + n)]"
    using Suc.prems by (simp add: take_Suc_conv_app_nth)
  have "bloom_read (Suc n) d p =
          (\<lambda>(index, p). (push_bit 8 index OR ucast (d ! p), p + 1)) (bloom_read n d p)"
    by (simp add: bloom_read_def)
  then show ?case unfolding IH t by (simp add: fromBigEndian_snoc)
qed


lemma ucast_one_shifted: "s < 8 \<Longrightarrow> (ucast (push_bit s (1 :: 32 word)) :: byte) = 2 ^ s"
  by (rule bit_word_eqI) (auto simp: bit_unsigned_iff bit_push_bit_iff bit_exp_iff bit_1_iff)

lemma masked_index:
  assumes "l \<le> 32"
  shows "unat ((of_nat x :: 32 word) AND (2 ^ l - 1)) = x mod 2 ^ l"
proof -
  have "(of_nat x :: 32 word) AND (2 ^ l - 1) = take_bit l (of_nat x)"
    by (simp only: take_bit_eq_mask mask_eq_exp_minus_1)
  moreover have "unat (take_bit l (of_nat x :: 32 word)) = take_bit l (unat (of_nat x :: 32 word))"
    by (rule unsigned_take_bit_eq)
  moreover have "unat (of_nat x :: 32 word) = take_bit 32 x"
    by (simp add: unat_of_nat take_bit_eq_mod)
  moreover have "take_bit l (take_bit 32 x) = take_bit l x"
    using assms by (simp add: min_def)
  ultimately show ?thesis by (simp only: take_bit_eq_mod)
qed

text \<open>One round of the outer loop is one \<open>set_pick\<close> with the masked index.\<close>

lemma bloom_pick_step:
  assumes "M = 2 ^ e" and "e < 29" and "p + bpp \<le> length d"
  shows "bloom_pick M (word_of_nat ((M * 8) mod 2 ^ 32) - 1) bpp d (ret, p)
         = (set_pick M (be_nat (take bpp (drop p d)) mod (M * 8)) ret, p + bpp)"
proof -
  let ?x = "be_nat (take bpp (drop p d))"
  let ?w = "(of_nat ?x :: 32 word) AND (2 ^ (e + 3) - 1)"
  have m8: "M * 8 = 2 ^ (e + 3)" using assms(1) by (simp add: power_add)
  have "(2 :: nat) ^ (e + 3) < 2 ^ 32" using assms(2) by (intro power_strict_increasing) simp_all
  then have small: "(M * 8) mod 2 ^ 32 = 2 ^ (e + 3)" using m8 by simp
  have mask: "(word_of_nat ((M * 8) mod 2 ^ 32) :: 32 word) - 1 = 2 ^ (e + 3) - 1"
    unfolding small by simp
  have idx: "unat ?w = ?x mod (M * 8)"
    using assms(2) by (simp only: m8 masked_index)
  have d8: "unat (?w div 8) = unat ?w div 8" and r8: "unat (?w mod 8) = unat ?w mod 8"
    by (simp_all add: unat_div unat_mod)
  have r: "bloom_read bpp d p = (of_nat ?x, p + bpp)"
    using assms(3) by (simp add: bloom_read_eq fromBigEndian_of_nat)
  have sh: "(ucast (push_bit (?x mod (M * 8) mod 8) (1 :: 32 word)) :: byte) = 2 ^ (?x mod (M * 8) mod 8)"
    by (rule ucast_one_shifted) simp
  show ?thesis
    by (simp only: bloom_pick_def prod.case Let_def r mask d8 r8 sh idx set_pick_def)
qed

lemma bloom_fold:
  assumes "M = 2 ^ e" and "e < 29" and "i * bpp \<le> length d"
  shows "fold (\<lambda>i. bloom_pick M (word_of_nat ((M * 8) mod 2 ^ 32) - 1) bpp d) [0..<i] (ret, 0)
         = (fold (\<lambda>i. set_pick M (pick_index (M * 8) bpp d i)) [0..<i] ret, i * bpp)"
  using assms(3)
proof (induction i)
  case 0
  then show ?case by simp
next
  case (Suc i)
  then have IH: "fold (\<lambda>i. bloom_pick M (word_of_nat ((M * 8) mod 2 ^ 32) - 1) bpp d) [0..<i] (ret, 0)
         = (fold (\<lambda>i. set_pick M (pick_index (M * 8) bpp d i)) [0..<i] ret, i * bpp)"
    by simp
  have "i * bpp + bpp \<le> length d" using Suc.prems by simp
  then have "bloom_pick M (word_of_nat ((M * 8) mod 2 ^ 32) - 1) bpp d
               (fold (\<lambda>i. set_pick M (pick_index (M * 8) bpp d i)) [0..<i] ret, i * bpp)
           = (set_pick M (pick_index (M * 8) bpp d i)
               (fold (\<lambda>i. set_pick M (pick_index (M * 8) bpp d i)) [0..<i] ret), i * bpp + bpp)"
    unfolding pick_index_def using assms(1,2) by (rule bloom_pick_step [rotated 2])
  then show ?case using IH by simp
qed

lemma bloomPart_eq_spec:
  assumes "M = 2 ^ e" and "e < 29" and "P * ((e + 10) div 8) \<le> length v"
  shows "bloomPart P M v = Some (bloomPart_spec P M ((e + 10) div 8) v)"
proof -
  have m8: "M * 8 = 2 ^ (e + 3)" using assms(1) by (simp add: power_add)
  have "(2 :: nat) ^ (e + 3) < 2 ^ 32" using assms(2) by (intro power_strict_increasing) simp_all
  then have small: "(M * 8) mod 2 ^ 32 = 2 ^ (e + 3)" using m8 by simp
  have lg: "StaticLog2 ((M * 8) mod 2 ^ 32) = Some (e + 3)"
    unfolding small by (rule StaticLog2_power)
  have bpp: "(e + 3 + 7) div 8 = (e + 10) div 8" by simp
  have pw: "M AND (M - 1) = 0" unfolding assms(1) by (rule power_of_two_and_pred)
  have "(P * ((e + 10) div 8)) mod 2 ^ 32 \<le> P * ((e + 10) div 8)" by (rule mod_less_eq_dividend)
  then have rng: "(P * ((e + 10) div 8)) mod 2 ^ 32 \<le> length v" using assms(3) by (rule order_trans)
  have "bloomPart P M v =
          Some (fst (fold (\<lambda>i. bloom_pick M (word_of_nat ((M * 8) mod 2 ^ 32) - 1) ((e + 10) div 8) v) [0..<P]
                          (FixedHash_empty M, 0)))"
    unfolding bloomPart_def Let_def lg option.case bpp using pw rng by simp
  also have "\<dots> = Some (bloomPart_spec P M ((e + 10) div 8) v)"
    using bloom_fold [OF assms(1,2), of P "(e + 10) div 8" v "FixedHash_empty M"] assms(3)
    by (simp add: bloomPart_spec_def FixedHash_empty_def fill0_def)
  finally show ?thesis .
qed


subsection \<open>Bits and bit counts of the specified result\<close>

lemma length_set_pick: "length (set_pick M index ret) = length ret"
  by (simp add: set_pick_def)

lemma pick_byte_in_range: "index < M * 8 \<Longrightarrow> M - 1 - index div 8 < (M :: nat)"
  by (cases M) auto

lemma bit_set_pick:
  assumes "index < M * 8" and "length ret = M" and "k < M"
  shows "bit (set_pick M index ret ! k) b \<longleftrightarrow>
           bit (ret ! k) b \<or> (k = M - 1 - index div 8 \<and> b = index mod 8)"
proof -
  have "M - 1 - index div 8 < length ret" using assms(1,2) by (simp add: pick_byte_in_range)
  moreover have "bit (2 ^ (index mod 8) :: byte) b \<longleftrightarrow> b = index mod 8"
    by (auto simp: bit_exp_iff)
  ultimately show ?thesis
    using assms(2,3) by (auto simp: set_pick_def nth_list_update bit_or_iff)
qed

lemma count_with_one_more:
  "distinct xs \<Longrightarrow> s \<in> set xs \<Longrightarrow>
   length (filter (\<lambda>n. Q n \<or> n = s) xs) = length (filter Q xs) + (if Q s then 0 else 1)"
proof (induction xs)
  case Nil
  then show ?case by simp
next
  case (Cons x xs)
  show ?case
  proof (cases "x = s")
    case True
    then have "s \<notin> set xs" using Cons.prems by simp
    then have "filter (\<lambda>n. Q n \<or> n = s) xs = filter Q xs" by (intro filter_cong) auto
    then show ?thesis using True by simp
  next
    case False
    then show ?thesis using Cons by auto
  qed
qed

lemma popcount_byte_or_bit:
  assumes "s < 8"
  shows "popcount_byte (y OR 2 ^ s) = popcount_byte y + (if bit y s then 0 else 1)"
proof -
  have "filter (bit (y OR 2 ^ s)) [0..<8] = filter (\<lambda>n. bit y n \<or> n = s) [0..<8]"
    by (intro filter_cong) (auto simp: bit_or_iff bit_exp_iff)
  then show ?thesis
    using count_with_one_more [of "[0..<8]" s "bit y"] assms by (simp add: popcount_byte_def)
qed

lemma popcount_update:
  assumes "k < length ret"
  shows "popcount (ret[k := x]) + popcount_byte (ret ! k) = popcount ret + popcount_byte x"
proof -
  have "map popcount_byte (ret[k := x]) = (map popcount_byte ret)[k := popcount_byte x]"
    by (rule map_update)
  moreover have "popcount_byte (ret ! k) \<le> sum_list (map popcount_byte ret)"
    using assms by (intro member_le_sum_list) simp_all
  ultimately show ?thesis
    using assms by (simp add: popcount_def sum_list_update)
qed

lemma popcount_set_pick:
  assumes "index < M * 8" and "length ret = M"
  shows "popcount (set_pick M index ret) =
           popcount ret + (if bit (ret ! (M - 1 - index div 8)) (index mod 8) then 0 else 1)"
proof -
  let ?k = "M - 1 - index div 8"
  have k: "?k < length ret" using assms by (simp add: pick_byte_in_range)
  have "popcount (set_pick M index ret) + popcount_byte (ret ! ?k)
          = popcount ret + popcount_byte (ret ! ?k OR 2 ^ (index mod 8))"
    unfolding set_pick_def using k by (rule popcount_update)
  then show ?thesis by (simp add: popcount_byte_or_bit)
qed

lemma popcount_replicate_0: "popcount (replicate M 0) = 0"
  by (simp add: popcount_def popcount_byte_def)

lemma popcount_pos:
  assumes "k < length r" and "bit (r ! k) b"
  shows "0 < popcount r"
proof -
  have "b < 8" using assms(2) by (auto dest: bit_imp_le_length)
  then have "b \<in> set (filter (bit (r ! k)) [0..<8])" using assms(2) by simp
  then have "0 < popcount_byte (r ! k)" unfolding popcount_byte_def by (metis length_pos_if_in_set)
  moreover have "popcount_byte (r ! k) \<le> popcount r"
    unfolding popcount_def using assms(1) by (intro member_le_sum_list) simp_all
  ultimately show ?thesis by simp
qed

lemma spec_fold_Suc:
  "fold (\<lambda>i. set_pick M (f i)) [0..<Suc P] ret0 = set_pick M (f P) (fold (\<lambda>i. set_pick M (f i)) [0..<P] ret0)"
  by simp

lemma spec_fold_props:
  assumes "\<forall>i<P. f i < M * 8" and "length ret0 = M"
  shows "length (fold (\<lambda>i. set_pick M (f i)) [0..<P] ret0) = M"
    and "\<forall>k<M. \<forall>b. bit (fold (\<lambda>i. set_pick M (f i)) [0..<P] ret0 ! k) b \<longleftrightarrow>
            bit (ret0 ! k) b \<or> (\<exists>i<P. k = M - 1 - f i div 8 \<and> b = f i mod 8)"
    and "popcount (fold (\<lambda>i. set_pick M (f i)) [0..<P] ret0) \<le> popcount ret0 + P"
    and "1 \<le> P \<longrightarrow> 1 \<le> popcount (fold (\<lambda>i. set_pick M (f i)) [0..<P] ret0)"
  using assms(1)
proof (induction P)
  case 0
  {
    case 1 show ?case using assms(2) by simp
  next
    case 2 show ?case by simp
  next
    case 3 show ?case by simp
  next
    case 4 show ?case by simp
  }
next
  case (Suc P)
  let ?R = "fold (\<lambda>i. set_pick M (f i)) [0..<P] ret0"
  {
    case 1
    then have "length ?R = M" using Suc.IH(1) by simp
    then show ?case by (simp only: spec_fold_Suc length_set_pick)
  next
    case 2
    then have l: "length ?R = M" and b: "\<forall>k<M. \<forall>b. bit (?R ! k) b \<longleftrightarrow>
            bit (ret0 ! k) b \<or> (\<exists>i<P. k = M - 1 - f i div 8 \<and> b = f i mod 8)"
      and f: "f P < M * 8"
      using Suc.IH(1,2) by simp_all
    show ?case
    proof (intro allI impI)
      fix k b assume k: "k < M"
      have "bit (set_pick M (f P) ?R ! k) b \<longleftrightarrow> bit (?R ! k) b \<or> (k = M - 1 - f P div 8 \<and> b = f P mod 8)"
        using f l k by (rule bit_set_pick)
      also have "\<dots> \<longleftrightarrow> bit (ret0 ! k) b \<or> (\<exists>i<Suc P. k = M - 1 - f i div 8 \<and> b = f i mod 8)"
        using b k by (auto simp: less_Suc_eq)
      finally show "bit (fold (\<lambda>i. set_pick M (f i)) [0..<Suc P] ret0 ! k) b \<longleftrightarrow>
            bit (ret0 ! k) b \<or> (\<exists>i<Suc P. k = M - 1 - f i div 8 \<and> b = f i mod 8)"
        by (simp only: spec_fold_Suc)
    qed
  next
    case 3
    then have l: "length ?R = M" and c: "popcount ?R \<le> popcount ret0 + P" and f: "f P < M * 8"
      using Suc.IH(1,3) by simp_all
    have "popcount (set_pick M (f P) ?R) \<le> popcount ?R + 1"
      using popcount_set_pick [OF f l] by simp
    then show ?case using c unfolding spec_fold_Suc by simp
  next
    case 4
    then have l: "length ?R = M" and f: "f P < M * 8"
      using Suc.IH(1) by simp_all
    have k: "M - 1 - f P div 8 < M" using f by (rule pick_byte_in_range)
    have "bit (set_pick M (f P) ?R ! (M - 1 - f P div 8)) (f P mod 8)"
      using bit_set_pick [OF f l k] by simp
    moreover have "M - 1 - f P div 8 < length (set_pick M (f P) ?R)"
      using k l by (simp add: length_set_pick)
    ultimately have "0 < popcount (set_pick M (f P) ?R)" by (rule popcount_pos [rotated])
    then show ?case unfolding spec_fold_Suc by simp
  }
qed


lemma pick_index_less: "M = 2 ^ e \<Longrightarrow> pick_index (M * 8) bpp v i < M * 8"
  by (simp add: pick_index_def)

lemma bloomPart_spec_props:
  assumes "M = 2 ^ e"
  shows "length (bloomPart_spec P M bpp v) = M"
    and "\<forall>k<M. \<forall>b. bit (bloomPart_spec P M bpp v ! k) b \<longleftrightarrow>
            (\<exists>i<P. k = M - 1 - pick_index (M * 8) bpp v i div 8 \<and> b = pick_index (M * 8) bpp v i mod 8)"
    and "popcount (bloomPart_spec P M bpp v) \<le> P"
    and "1 \<le> P \<longrightarrow> 1 \<le> popcount (bloomPart_spec P M bpp v)"
proof -
  have f: "\<forall>i<P. pick_index (M * 8) bpp v i < M * 8" using assms by (simp add: pick_index_less)
  have l: "length (replicate M (0 :: byte)) = M" by simp
  note p = spec_fold_props [OF f l]
  show "length (bloomPart_spec P M bpp v) = M" unfolding bloomPart_spec_def by (rule p(1))
  show "\<forall>k<M. \<forall>b. bit (bloomPart_spec P M bpp v ! k) b \<longleftrightarrow>
            (\<exists>i<P. k = M - 1 - pick_index (M * 8) bpp v i div 8 \<and> b = pick_index (M * 8) bpp v i mod 8)"
    unfolding bloomPart_spec_def using p(2) by simp
  show "popcount (bloomPart_spec P M bpp v) \<le> P"
    unfolding bloomPart_spec_def using p(3) by (simp add: popcount_replicate_0)
  show "1 \<le> P \<longrightarrow> 1 \<le> popcount (bloomPart_spec P M bpp v)"
    unfolding bloomPart_spec_def by (rule p(4))
qed

text \<open>
  Claim C1. Let \<open>M = 2 ^ e\<close> (so that \<open>bits = M * 8 = 2 ^ (e + 3)\<close> and
  \<open>bytesPerPick = ceil (log2 bits / 8) = (e + 10) div 8\<close>), with \<open>M * 8\<close> a value of \<^verbatim>\<open>unsigned\<close>, and let
  \<open>P * bytesPerPick\<close> be at most the size of the source. Then \<open>bloomPart\<close> returns the \<open>M\<close>-byte value
  the specification computes: pick \<open>i\<close> reads the bytes \<open>i * bytesPerPick ..< (i + 1) * bytesPerPick\<close>
  of the source, all of them inside it, as a big-endian number reduced modulo \<open>bits\<close>, and bit \<open>b\<close> of
  byte \<open>k\<close> of the result is set exactly if some pick has \<open>k = M - 1 - index / 8\<close> and
  \<open>b = index % 8\<close>.
\<close>

theorem bloomPart_implements_spec:
  assumes "M = 2 ^ e" and "e < 29" and "P * ((e + 10) div 8) \<le> length v"
  shows "\<exists>r. bloomPart P M v = Some r
           \<and> r = bloomPart_spec P M ((e + 10) div 8) v
           \<and> length r = M
           \<and> (\<forall>i<P. i * ((e + 10) div 8) + (e + 10) div 8 \<le> length v)
           \<and> (\<forall>k<M. \<forall>b. bit (r ! k) b \<longleftrightarrow>
                 (\<exists>i<P. k = M - 1 - pick_index (M * 8) ((e + 10) div 8) v i div 8
                        \<and> b = pick_index (M * 8) ((e + 10) div 8) v i mod 8))"
proof -
  let ?bpp = "(e + 10) div 8"
  have "i * ?bpp + ?bpp \<le> length v" if "i < P" for i
  proof -
    have "Suc i * ?bpp \<le> P * ?bpp" using that by (intro mult_le_mono1) simp
    then show ?thesis using assms(3) by simp
  qed
  then show ?thesis
    using bloomPart_eq_spec [OF assms] bloomPart_spec_props(1,2) [OF assms(1), of P ?bpp v]
    by simp
qed

theorem bloomPart_implements_spec_witness:
  "bloomPart 3 4 [0x23, 0x0A, 0x1F] = Some [0x80, 0, 0x04, 0x08]
   \<and> bloomPart_spec 3 4 1 [0x23, 0x0A, 0x1F] = [0x80, 0, 0x04, 0x08]"
proof -
  have s: "bloomPart_spec 3 4 1 [0x23, 0x0A, 0x1F] = [0x80, 0, 0x04, 0x08]"
    by code_simp
  have a: "(4 :: nat) = 2 ^ 2" and b: "(2 :: nat) < 29"
    and c: "3 * ((2 + 10) div 8) \<le> length [0x23, 0x0A, 0x1F :: byte]" by simp_all
  from bloomPart_implements_spec [OF a b c] s show ?thesis by simp
qed

section \<open>How many bits a bloom part has\<close>

lemma bloomPart_spec_Suc:
  "bloomPart_spec (Suc i) M bpp v = set_pick M (pick_index (M * 8) bpp v i) (bloomPart_spec i M bpp v)"
  by (simp add: bloomPart_spec_def)

text \<open>
  Claim C10. Under the preconditions of \<open>bloomPart\<close> (with \<open>M = 2 ^ e\<close> and \<open>M * 8\<close> a value of
  \<^verbatim>\<open>unsigned\<close>) the result has \<open>M\<close> bytes and at most \<open>P\<close> bits set, and for \<open>P \<ge> 1\<close> at least one, so it is
  not the all-zero value; its set bits are exactly the bits of the \<open>P\<close> picks. Each pick sets exactly
  one bit: the result of \<open>i + 1\<close> picks is the result of \<open>i\<close> picks with the one bit of pick \<open>i\<close> ORed
  into one byte, every other bit unchanged, and the bit count grows by one if that bit was clear
  and not at all if it was set. Picks may coincide: two picks of the same index set a single bit.
\<close>

theorem bloomPart_sets_between_one_and_P_bits:
  assumes "M = 2 ^ e" and "e < 29" and "P * ((e + 10) div 8) \<le> length v"
  shows "(\<exists>r. bloomPart P M v = Some r \<and> length r = M \<and> popcount r \<le> P
             \<and> (1 \<le> P \<longrightarrow> 1 \<le> popcount r \<and> r \<noteq> replicate M 0)
             \<and> (\<forall>k<M. \<forall>b. bit (r ! k) b \<longleftrightarrow>
                   (\<exists>i<P. k = M - 1 - pick_index (M * 8) ((e + 10) div 8) v i div 8
                          \<and> b = pick_index (M * 8) ((e + 10) div 8) v i mod 8)))
       \<and> (\<forall>i<P. \<exists>r0 r1 k b. bloomPart i M v = Some r0 \<and> bloomPart (Suc i) M v = Some r1
               \<and> length r0 = M \<and> length r1 = M \<and> k < M \<and> b < 8
               \<and> k = M - 1 - pick_index (M * 8) ((e + 10) div 8) v i div 8
               \<and> b = pick_index (M * 8) ((e + 10) div 8) v i mod 8
               \<and> r1 = r0[k := r0 ! k OR 2 ^ b]
               \<and> bit (r1 ! k) b
               \<and> popcount r1 = popcount r0 + (if bit (r0 ! k) b then 0 else 1))
       \<and> bloomPart 2 1 [5, 5] = Some [0x20] \<and> popcount [0x20] = 1"
proof (intro conjI allI impI)
  let ?bpp = "(e + 10) div 8"
  let ?r = "bloomPart_spec P M ?bpp v"
  have "popcount ?r \<noteq> 0" if "1 \<le> P"
    using bloomPart_spec_props(4) [OF assms(1), of P ?bpp v] that by simp
  then have "?r \<noteq> replicate M 0" if "1 \<le> P"
    using that popcount_replicate_0 [of M] by metis
  then show "\<exists>r. bloomPart P M v = Some r \<and> length r = M \<and> popcount r \<le> P
             \<and> (1 \<le> P \<longrightarrow> 1 \<le> popcount r \<and> r \<noteq> replicate M 0)
             \<and> (\<forall>k<M. \<forall>b. bit (r ! k) b \<longleftrightarrow>
                   (\<exists>i<P. k = M - 1 - pick_index (M * 8) ((e + 10) div 8) v i div 8
                          \<and> b = pick_index (M * 8) ((e + 10) div 8) v i mod 8))"
    using bloomPart_eq_spec [OF assms] bloomPart_spec_props [OF assms(1), of P ?bpp v]
    by simp
next
  fix i assume i: "i < P"
  let ?bpp = "(e + 10) div 8"
  let ?idx = "pick_index (M * 8) ?bpp v i"
  let ?k = "M - 1 - ?idx div 8" and ?b = "?idx mod 8"
  let ?r0 = "bloomPart_spec i M ?bpp v" and ?r1 = "bloomPart_spec (Suc i) M ?bpp v"
  have "Suc i * ?bpp \<le> P * ?bpp" using i by (intro mult_le_mono1) simp
  then have s: "Suc i * ?bpp \<le> length v" using assms(3) by simp
  then have "i * ?bpp \<le> length v" by simp
  then have r0: "bloomPart i M v = Some ?r0"
    using assms(1,2) by (intro bloomPart_eq_spec)
  have r1: "bloomPart (Suc i) M v = Some ?r1"
    using assms(1,2) s by (intro bloomPart_eq_spec)
  have idx: "?idx < M * 8" using assms(1) by (rule pick_index_less)
  have l0: "length ?r0 = M" and l1: "length ?r1 = M"
    using assms(1) by (rule bloomPart_spec_props(1))+
  have k: "?k < M" using idx by (rule pick_byte_in_range)
  have b: "?b < 8" by simp
  have u: "?r1 = ?r0[?k := ?r0 ! ?k OR 2 ^ ?b]"
    by (simp only: bloomPart_spec_Suc set_pick_def)
  have "bit (set_pick M ?idx ?r0 ! ?k) ?b" using bit_set_pick [OF idx l0 k] by simp
  then have bt: "bit (?r1 ! ?k) ?b" by (simp only: bloomPart_spec_Suc)
  have pc: "popcount ?r1 = popcount ?r0 + (if bit (?r0 ! ?k) ?b then 0 else 1)"
    unfolding bloomPart_spec_Suc using idx l0 by (rule popcount_set_pick)
  show "\<exists>r0 r1 k b. bloomPart i M v = Some r0 \<and> bloomPart (Suc i) M v = Some r1
               \<and> length r0 = M \<and> length r1 = M \<and> k < M \<and> b < 8
               \<and> k = M - 1 - pick_index (M * 8) ((e + 10) div 8) v i div 8
               \<and> b = pick_index (M * 8) ((e + 10) div 8) v i mod 8
               \<and> r1 = r0[k := r0 ! k OR 2 ^ b]
               \<and> bit (r1 ! k) b
               \<and> popcount r1 = popcount r0 + (if bit (r0 ! k) b then 0 else 1)"
    using r0 r1 l0 l1 k b u bt pc by blast
next
  have s: "bloomPart_spec 2 1 1 [5, 5] = [0x20]" by code_simp
  have "bloomPart 2 (2 ^ 0) [5, 5] = Some (bloomPart_spec 2 (2 ^ 0) ((0 + 10) div 8) [5, 5])"
    by (rule bloomPart_eq_spec) simp_all
  then show "bloomPart 2 1 [5, 5] = Some [0x20]" using s by simp
next
  show "popcount [0x20] = 1" by code_simp
qed

theorem bloomPart_sets_between_one_and_P_bits_witness:
  "(\<exists>r. bloomPart 3 4 [0x23, 0x0A, 0x1F] = Some r \<and> length r = 4 \<and> popcount r \<le> 3 \<and> 1 \<le> popcount r
        \<and> r \<noteq> replicate 4 0)
   \<and> (\<exists>r0 r1. bloomPart 0 4 [0x23, 0x0A, 0x1F] = Some r0 \<and> bloomPart 1 4 [0x23, 0x0A, 0x1F] = Some r1
        \<and> r1 = r0[3 := r0 ! 3 OR 2 ^ 3])
   \<and> popcount [0x80, 0, 0x04, 0x08] = 3"
proof -
  have a: "(4 :: nat) = 2 ^ 2" and b: "(2 :: nat) < 29"
    and c: "3 * ((2 + 10) div 8) \<le> length [0x23, 0x0A, 0x1F :: byte]" by simp_all
  have p: "popcount [0x80, 0, 0x04, 0x08] = 3" by code_simp
  have i: "pick_index (4 * 8) ((2 + 10) div 8) [0x23, 0x0A, 0x1F] 0 = 3" by code_simp
  note t = bloomPart_sets_between_one_and_P_bits [OF a b c]
  from t have "\<exists>r. bloomPart 3 4 [0x23, 0x0A, 0x1F] = Some r \<and> length r = 4 \<and> popcount r \<le> 3 \<and> 1 \<le> popcount r
        \<and> r \<noteq> replicate 4 0"
    by auto
  moreover from t have "\<exists>r0 r1 k b. bloomPart 0 4 [0x23, 0x0A, 0x1F] = Some r0
        \<and> bloomPart (Suc 0) 4 [0x23, 0x0A, 0x1F] = Some r1
        \<and> k = 4 - 1 - pick_index (4 * 8) ((2 + 10) div 8) [0x23, 0x0A, 0x1F] 0 div 8
        \<and> b = pick_index (4 * 8) ((2 + 10) div 8) [0x23, 0x0A, 0x1F] 0 mod 8
        \<and> r1 = r0[k := r0 ! k OR 2 ^ b]"
    by (elim conjE allE [of _ 0]) (simp, blast)
  then have "\<exists>r0 r1. bloomPart 0 4 [0x23, 0x0A, 0x1F] = Some r0 \<and> bloomPart 1 4 [0x23, 0x0A, 0x1F] = Some r1
        \<and> r1 = r0[3 := r0 ! 3 OR 2 ^ 3]"
    unfolding i by auto
  ultimately show ?thesis using p by simp
qed

section \<open>Insertion into a filter, then the membership test\<close>

text \<open>The loops of \<^verbatim>\<open>operator|=\<close> and \<^verbatim>\<open>operator&=\<close> combine the two arrays position by position.\<close>

lemma pointwise_fold:
  assumes "n \<le> length a"
  shows "length (fold (\<lambda>i d. d[i := f (d ! i) (c ! i)]) [0..<n] a) = length a
       \<and> (\<forall>k<length a. fold (\<lambda>i d. d[i := f (d ! i) (c ! i)]) [0..<n] a ! k
                          = (if k < n then f (a ! k) (c ! k) else a ! k))"
  using assms
proof (induction n)
  case 0
  then show ?case by simp
next
  case (Suc n)
  let ?d = "fold (\<lambda>i d. d[i := f (d ! i) (c ! i)]) [0..<n] a"
  have IH: "length ?d = length a" "\<forall>k<length a. ?d ! k = (if k < n then f (a ! k) (c ! k) else a ! k)"
    using Suc by simp_all
  have n: "n < length a" using Suc.prems by simp
  have e: "fold (\<lambda>i d. d[i := f (d ! i) (c ! i)]) [0..<Suc n] a = ?d[n := f (?d ! n) (c ! n)]"
    by simp
  show ?case unfolding e using IH n by (auto simp: nth_list_update less_Suc_eq)
qed

lemma nth_op_or_assign:
  "length (op_or_assign a c) = length a"
  "k < length a \<Longrightarrow> op_or_assign a c ! k = a ! k OR c ! k"
  using pointwise_fold [of "length a" a "(OR)" c] by (simp_all add: op_or_assign_def)

lemma nth_op_and:
  "length (op_and a c) = length a"
  "k < length a \<Longrightarrow> op_and a c ! k = a ! k AND c ! k"
  using pointwise_fold [of "length a" a "(AND)" c] by (simp_all add: op_and_def op_and_assign_def)

lemma contains_after_or:
  assumes "length c = length a"
  shows "contains en (op_or_assign a c) c"
proof -
  have "op_and (op_or_assign a c) c = c"
  proof (rule nth_equalityI)
    show "length (op_and (op_or_assign a c) c) = length c" using assms by (simp add: nth_op_and nth_op_or_assign)
    fix k assume "k < length (op_and (op_or_assign a c) c)"
    then have k: "k < length a" by (simp add: nth_op_and nth_op_or_assign)
    have "(a ! k OR c ! k) AND c ! k = c ! k" by (rule bit_eqI) (auto simp: bit_and_iff bit_or_iff)
    then show "op_and (op_or_assign a c) c ! k = c ! k" using k by (simp add: nth_op_and nth_op_or_assign)
  qed
  moreover have "op_eq en c c" by (simp add: op_eq_iff)
  ultimately show ?thesis by (simp add: contains_def)
qed

text \<open>
  Claim C2. For every filter \<open>self\<close> of size \<open>N = 2 ^ e\<close> (with \<open>N * 8\<close> a value of \<^verbatim>\<open>unsigned\<close>) and
  every item \<open>other\<close> with at least \<open>P * bytesPerPick\<close> bytes, \<open>shiftBloom\<close> returns a filter of the same
  size and \<open>containsBloom\<close> of the same item on that filter returns true, whatever the byte order
  of the machine.
\<close>

theorem shiftBloom_then_containsBloom:
  assumes "length self = 2 ^ e" and "e < 29" and "P * ((e + 10) div 8) \<le> length other"
  shows "\<exists>s. shiftBloom P self other = Some s \<and> length s = length self
            \<and> containsBloom en P s other = Some True"
proof -
  let ?r = "bloomPart_spec P (length self) ((e + 10) div 8) other"
  have r: "bloomPart P (length self) other = Some ?r" using assms by (rule bloomPart_eq_spec)
  have l: "length ?r = length self" using assms(1) by (rule bloomPart_spec_props(1))
  have "shiftBloom P self other = Some (op_or_assign self ?r)" by (simp add: shiftBloom_def r)
  moreover have "length (op_or_assign self ?r) = length self" by (rule nth_op_or_assign(1))
  moreover have "containsBloom en P (op_or_assign self ?r) other = Some True"
    using contains_after_or [OF l, of en] by (simp add: containsBloom_def nth_op_or_assign(1) r)
  ultimately show ?thesis by simp
qed

theorem shiftBloom_then_containsBloom_witness:
  "\<exists>s. shiftBloom 3 (replicate 32 0) (replicate 31 0x0F @ [0xA5]) = Some s
       \<and> containsBloom LittleEndian 3 s (replicate 31 0x0F @ [0xA5]) = Some True"
proof -
  have a: "length (replicate 32 (0 :: byte)) = 2 ^ 5" and b: "(5 :: nat) < 29"
    and c: "3 * ((5 + 10) div 8) \<le> length (replicate 31 (0x0F :: byte) @ [0xA5])" by simp_all
  from shiftBloom_then_containsBloom [OF a b c, of LittleEndian] show ?thesis by auto
qed

end
